theory Spec2Isabelle
  imports Main "HOL-Library.List_Lexorder"
begin

unbundle bit_operations_syntax

section \<open>Strings\<close>

text \<open>
  A JavaScript string is a sequence of UTF-16 code units; it is modelled as a list of
  natural numbers, one per code unit.  All characters the engine tests for lie in the
  Basic Multilingual Plane, so each is a single code unit.  ASCII text is written with
  \<open>js\<close>, the logic symbols are given by their code points.
\<close>

type_synonym jstring = "nat list"

definition js :: "string \<Rightarrow> jstring" where
  "js s = map of_char s"

definition c_not :: nat where "c_not = 172"         \<comment> \<open>U+00AC, the negation sign\<close>
definition c_and :: nat where "c_and = 8743"        \<comment> \<open>U+2227\<close>
definition c_or :: nat where "c_or = 8744"          \<comment> \<open>U+2228\<close>
definition c_implies :: nat where "c_implies = 8594" \<comment> \<open>U+2192\<close>
definition c_iff :: nat where "c_iff = 8596"        \<comment> \<open>U+2194\<close>
definition c_xor :: nat where "c_xor = 8853"        \<comment> \<open>U+2295\<close>

lemmas char_defs = c_not_def c_and_def c_or_def c_implies_def c_iff_def c_xor_def

definition startsWith :: "jstring \<Rightarrow> jstring \<Rightarrow> bool" where
  "startsWith s key = (take (length key) s = key)"

definition endsWith :: "jstring \<Rightarrow> jstring \<Rightarrow> bool" where
  "endsWith s key = (length key \<le> length s \<and> drop (length s - length key) s = key)"

fun join :: "jstring \<Rightarrow> jstring list \<Rightarrow> jstring" where
  "join sep [] = []"
| "join sep [x] = x"
| "join sep (x # y # ys) = x @ sep @ join sep (y # ys)"

text \<open>The characters matched by the regular expression class \<open>\s\<close>.\<close>

definition isWhiteSpace :: "nat \<Rightarrow> bool" where
  "isWhiteSpace c = (c \<in> {9, 10, 11, 12, 13, 32, 160, 5760, 8232, 8233, 8239, 8287, 12288, 65279}
                     \<or> (8192 \<le> c \<and> c \<le> 8202))"

text \<open>
  \<open>String.prototype.toUpperCase\<close> is a library function driven by the Unicode case
  tables; the tokenizer takes it as a parameter \<open>up\<close>.  On strings made of ASCII
  characters and the logic symbols it is the function below.
\<close>

definition toUpperCaseASCII :: "jstring \<Rightarrow> jstring" where
  "toUpperCaseASCII s = map (\<lambda>c. if 97 \<le> c \<and> c \<le> 122 then c - 32 else c) s"

text \<open>Insertion into a JavaScript \<open>Set\<close>, kept as the list of members in insertion order.\<close>

definition set_add :: "'a \<Rightarrow> 'a list \<Rightarrow> 'a list" where
  "set_add x xs = (if x \<in> set xs then xs else xs @ [x])"

section \<open>Label formatting\<close>

datatype NegationHandling = preserve | normalize | simplify
datatype RowOrder = ascending | descending

text \<open>
  The fields of \<open>AppSettings\<close> the engine reads: \<open>logic.negationHandling\<close>,
  \<open>logic.rowOrder\<close> (\<open>descending\<close> is the setting \<open>1\<rightarrow>0\<close>) and
  \<open>table.showSubExpressions\<close>.
\<close>

record AppSettings =
  negationHandling :: NegationHandling
  rowOrder :: RowOrder
  showSubExpressions :: bool

text \<open>\<open>expr.replace(/[-!~]/g, c_not)\<close>\<close>

definition normalizeNegations :: "jstring \<Rightarrow> jstring" where
  "normalizeNegations expr = map (\<lambda>c. if c \<in> {45, 33, 126} then c_not else c) expr"

text \<open>\<open>s.replace(/(c_not)(c_not)/g, '')\<close>: one left-to-right pass over non-overlapping matches.\<close>

fun removeDoubleNegations :: "jstring \<Rightarrow> jstring" where
  "removeDoubleNegations (a # b # rest) =
     (if a = c_not \<and> b = c_not then removeDoubleNegations rest
      else a # removeDoubleNegations (b # rest))"
| "removeDoubleNegations s = s"

lemma length_removeDoubleNegations: "length (removeDoubleNegations s) \<le> length s"
  by (induction s rule: removeDoubleNegations.induct) auto

lemma removeDoubleNegations_shorter:
  "removeDoubleNegations s \<noteq> s \<Longrightarrow> length (removeDoubleNegations s) < length s"
proof (induction s rule: removeDoubleNegations.induct)
  case (1 a b rest)
  show ?case
  proof (cases "a = c_not \<and> b = c_not")
    case True
    have "length (removeDoubleNegations rest) \<le> length rest"
      by (rule length_removeDoubleNegations)
    with True show ?thesis by simp
  next
    case False
    with 1 show ?thesis by auto
  qed
qed simp_all

text \<open>The loop \<open>while (normalized !== prev) { prev = normalized; normalized = ... }\<close>.\<close>

function simplifyLoop :: "jstring \<Rightarrow> jstring \<Rightarrow> jstring" where
  "simplifyLoop normalized prev =
     (if normalized \<noteq> prev then simplifyLoop (removeDoubleNegations normalized) normalized
      else normalized)"
  by pat_completeness auto
termination
proof (relation "measure (\<lambda>(n, p). 2 * length n + (if n \<noteq> p then 1 else 0))", goal_cases)
  case 1
  show ?case by simp
next
  case (2 normalized prev)
  show ?case
  proof (cases "removeDoubleNegations normalized = normalized")
    case True
    with 2 show ?thesis by simp
  next
    case False
    from removeDoubleNegations_shorter [OF False] 2 show ?thesis by simp
  qed
qed

declare simplifyLoop.simps [simp del]

definition formatLabel :: "jstring \<Rightarrow> AppSettings \<Rightarrow> jstring" where
  "formatLabel expr settings =
     (if negationHandling settings = preserve then expr
      else let normalized = normalizeNegations expr in
        if negationHandling settings = normalize then normalized
        else if negationHandling settings = simplify then
          (let normalized = simplifyLoop normalized [] in
           if normalized \<noteq> [] then normalized else [c_not, c_not])
        else expr)"

section \<open>Tokenizer\<close>

datatype TokenType =
  T_VAR | T_NOT | T_AND | T_OR | T_IMPLIES | T_IFF | T_XOR
  | T_LPAREN | T_RPAREN | T_LBRACKET | T_RBRACKET | T_LBRACE | T_RBRACE | T_EOF

record Token =
  ttype :: TokenType
  tvalue :: jstring

text \<open>The table \<open>OPS\<close>, in the order its keys were written.\<close>

definition OPS :: "(jstring \<times> jstring) list" where
  "OPS =
    [(js ''->'', [c_implies]), (js ''=>'', [c_implies]), (js ''IMPLIES'', [c_implies]),
     (js ''<->'', [c_iff]), (js ''<=>'', [c_iff]), (js ''IFF'', [c_iff]),
     (js ''&'', [c_and]), (js ''&&'', [c_and]), (js ''AND'', [c_and]),
     (js ''|'', [c_or]), (js ''||'', [c_or]), (js ''OR'', [c_or]),
     (js ''!'', [c_not]), (js ''~'', [c_not]), (js ''-'', [c_not]), (js ''NOT'', [c_not]),
     (js ''^'', [c_xor]), (js ''XOR'', [c_xor])]"

text \<open>\<open>Object.values(SYMBOLS)\<close>\<close>

definition SYMBOLS :: "jstring list" where
  "SYMBOLS = [[c_not], [c_and], [c_or], [c_implies], [c_iff], [c_xor],
              js ''('', js '')'', js ''['', js '']'', js ''{'', js ''}'']"

text \<open>
  \<open>Object.keys(OPS).sort((a, b) => b.length - a.length)\<close>; the sort is stable, as is
  \<open>sort_key\<close>.
\<close>

definition opKeys :: "jstring list" where
  "opKeys = sort_key (\<lambda>key. - int (length key)) (map fst OPS)"

definition typeOfOperatorSymbol :: "jstring \<Rightarrow> TokenType" where
  "typeOfOperatorSymbol symbol =
     (if symbol = [c_not] then T_NOT
      else if symbol = [c_and] then T_AND
      else if symbol = [c_or] then T_OR
      else if symbol = [c_implies] then T_IMPLIES
      else if symbol = [c_iff] then T_IFF
      else if symbol = [c_xor] then T_XOR
      else T_VAR)"

definition typeOfSymbolChar :: "jstring \<Rightarrow> TokenType" where
  "typeOfSymbolChar char =
     (if char = [c_not] then T_NOT
      else if char = [c_and] then T_AND
      else if char = [c_or] then T_OR
      else if char = [c_implies] then T_IMPLIES
      else if char = [c_iff] then T_IFF
      else if char = [c_xor] then T_XOR
      else if char = js ''('' then T_LPAREN
      else if char = js '')'' then T_RPAREN
      else if char = js ''['' then T_LBRACKET
      else if char = js '']'' then T_RBRACKET
      else if char = js ''{'' then T_LBRACE
      else if char = js ''}'' then T_RBRACE
      else T_VAR)"

definition isSymbolChar :: "jstring \<Rightarrow> bool" where
  "isSymbolChar char =
     (char \<in> set SYMBOLS \<or> char \<in> set [js ''['', js '']'', js ''{'', js ''}'', js ''('', js '')''])"

text \<open>\<open>/[A-Z]/.test(char) || char === '1' || char === '0'\<close>\<close>

definition isVarChar :: "nat \<Rightarrow> bool" where
  "isVarChar c = ((65 \<le> c \<and> c \<le> 90) \<or> c = 49 \<or> c = 48)"

definition matchOperator :: "jstring \<Rightarrow> jstring option" where
  "matchOperator remainder = find (\<lambda>key. startsWith remainder key) opKeys"

lemma opKeys_eq:
  "opKeys = [js ''IMPLIES'', js ''<->'', js ''<=>'', js ''IFF'', js ''AND'', js ''NOT'', js ''XOR'',
             js ''->'', js ''=>'', js ''&&'', js ''||'', js ''OR'',
             js ''&'', js ''|'', js ''!'', js ''~'', js ''-'', js ''^'']"
  by (simp add: opKeys_def OPS_def js_def)

lemma matchOperator_nonempty: "matchOperator remainder = Some key \<Longrightarrow> key \<noteq> []"
proof -
  assume "matchOperator remainder = Some key"
  then have "key \<in> set opKeys"
    by (auto simp: matchOperator_def find_Some_iff)
  then show "key \<noteq> []"
    by (auto simp: opKeys_eq js_def)
qed

text \<open>
  The scanning loop of \<open>tokenize\<close>, on the part of the string from index \<open>i\<close> on
  (\<open>str.slice(i)\<close>).  An operator key is tried first; then the single character.  A key
  that matches is a key of \<open>OPS\<close>, so the lookup of its symbol always succeeds.
\<close>

function scan :: "jstring \<Rightarrow> Token list" where
  "scan [] = [\<lparr>ttype = T_EOF, tvalue = []\<rparr>]"
| "scan (char # rest) =
     (case matchOperator (char # rest) of
        Some key \<Rightarrow>
          (case map_of OPS key of
             Some symbol \<Rightarrow>
               \<lparr>ttype = typeOfOperatorSymbol symbol, tvalue = symbol\<rparr>
                 # scan (drop (length key) (char # rest))
           | None \<Rightarrow> scan (drop (length key) (char # rest)))
      | None \<Rightarrow>
          if isSymbolChar [char] then
            \<lparr>ttype = typeOfSymbolChar [char], tvalue = [char]\<rparr> # scan rest
          else if isVarChar char then \<lparr>ttype = T_VAR, tvalue = [char]\<rparr> # scan rest
          else if char = 45 then \<lparr>ttype = T_NOT, tvalue = js ''-''\<rparr> # scan rest
          else scan rest)"
  by pat_completeness auto

text \<open>The loop ends on every string: each step moves on by at least one character.\<close>

lemma scan_terminates: "scan_dom str"
proof -
  have "All scan_dom"
    by (relation "measure length") (auto dest!: matchOperator_nonempty)
  then show ?thesis ..
qed

termination scan
  using scan_terminates by blast

definition tokenize :: "(jstring \<Rightarrow> jstring) \<Rightarrow> jstring \<Rightarrow> Token list" where
  "tokenize up input = scan (filter (\<lambda>c. \<not> isWhiteSpace c) (up input))"

section \<open>Abstract syntax trees\<close>

text \<open>
  An \<open>ASTNode\<close> is an object whose \<open>type\<close> decides which of the optional fields
  \<open>value\<close>, \<open>operand\<close>, \<open>left\<close> and \<open>right\<close> it has: the parser builds a \<open>VAR\<close> node
  with a value, a \<open>NOT\<close> node with an operand, and a node of one of the five binary types
  with a left and a right child.  The three shapes are the constructors below; the field
  \<open>id\<close> is \<open>nodeId\<close> and the field \<open>value\<close> is \<open>val\<close>.
\<close>

datatype Connective = C_AND | C_OR | C_XOR | C_IMPLIES | C_IFF

datatype ASTNode =
    VarNode (nodeId: nat) (val: jstring) (expression: jstring) (depth: nat)
  | NotNode (nodeId: nat) (operand: ASTNode) (expression: jstring) (depth: nat)
  | BinNode (nodeId: nat) (connective: Connective) (left: ASTNode) (right: ASTNode)
      (expression: jstring) (depth: nat)

text \<open>The assignment \<open>node.expression = ...\<close> to a node the parser has just built.\<close>

fun setExpression :: "ASTNode \<Rightarrow> jstring \<Rightarrow> ASTNode" where
  "setExpression (VarNode i v e d) e' = VarNode i v e' d"
| "setExpression (NotNode i x e d) e' = NotNode i x e' d"
| "setExpression (BinNode i t l r e d) e' = BinNode i t l r e' d"

section \<open>Parser\<close>

text \<open>
  The state of a \<open>Parser\<close> object.  Each method takes the state and returns its result
  with the new state.  \<open>peek\<close> and \<open>consume\<close> read \<open>tokens[pos]\<close>, which is \<open>undefined\<close>
  past the end and is then replaced by an end marker; \<open>consume\<close> moves \<open>pos\<close> on in
  either case.
\<close>

record Parser =
  tokens :: "Token list"
  pos :: nat
  nodeIdCounter :: nat

definition peek :: "Parser \<Rightarrow> Token" where
  "peek p = (if pos p < length (tokens p) then tokens p ! pos p
             else \<lparr>ttype = T_EOF, tvalue = []\<rparr>)"

definition consume :: "Parser \<Rightarrow> Token \<times> Parser" where
  "consume p = (peek p, p\<lparr>pos := pos p + 1\<rparr>)"

definition generateId :: "Parser \<Rightarrow> nat \<times> Parser" where
  "generateId p = (nodeIdCounter p, p\<lparr>nodeIdCounter := nodeIdCounter p + 1\<rparr>)"

text \<open>
  The object literal of a binary node: the identifier is generated after both children have
  been parsed.
\<close>

definition mkBinary :: "Connective \<Rightarrow> jstring \<Rightarrow> ASTNode \<Rightarrow> ASTNode \<Rightarrow> Parser \<Rightarrow> ASTNode \<times> Parser" where
  "mkBinary t symb l r p =
     (case generateId p of (i, p') \<Rightarrow>
        (BinNode i t l r (expression l @ js '' '' @ symb @ js '' '' @ expression r)
           (max (depth l) (depth r) + 1), p'))"

definition remaining :: "Parser \<Rightarrow> nat" where
  "remaining p = length (tokens p) - pos p"

text \<open>
  The methods of the parser, on a stack that is never exhausted; the section on the call
  stack has them with the frames that are left.  The \<open>while\<close> loop of a binary level is
  the function with the suffix \<open>_loop\<close>, on the tree built so far.
\<close>

function parseIFF :: "Parser \<Rightarrow> ASTNode \<times> Parser"
  and parseIFF_loop :: "ASTNode \<Rightarrow> Parser \<Rightarrow> ASTNode \<times> Parser"
  and parseImplies :: "Parser \<Rightarrow> ASTNode \<times> Parser"
  and parseImplies_loop :: "ASTNode \<Rightarrow> Parser \<Rightarrow> ASTNode \<times> Parser"
  and parseXor :: "Parser \<Rightarrow> ASTNode \<times> Parser"
  and parseXor_loop :: "ASTNode \<Rightarrow> Parser \<Rightarrow> ASTNode \<times> Parser"
  and parseOr :: "Parser \<Rightarrow> ASTNode \<times> Parser"
  and parseOr_loop :: "ASTNode \<Rightarrow> Parser \<Rightarrow> ASTNode \<times> Parser"
  and parseAnd :: "Parser \<Rightarrow> ASTNode \<times> Parser"
  and parseAnd_loop :: "ASTNode \<Rightarrow> Parser \<Rightarrow> ASTNode \<times> Parser"
  and parseNot :: "Parser \<Rightarrow> ASTNode \<times> Parser"
  and parseFactor :: "Parser \<Rightarrow> ASTNode \<times> Parser"
where
  "parseIFF p = (case parseImplies p of (l, p1) \<Rightarrow> parseIFF_loop l p1)"
| "parseIFF_loop l p =
     (if ttype (peek p) = T_IFF then
        (case parseImplies (snd (consume p)) of (r, p2) \<Rightarrow>
           (case mkBinary C_IFF [c_iff] l r p2 of (l', p3) \<Rightarrow> parseIFF_loop l' p3))
      else (l, p))"
| "parseImplies p = (case parseXor p of (l, p1) \<Rightarrow> parseImplies_loop l p1)"
| "parseImplies_loop l p =
     (if ttype (peek p) = T_IMPLIES then
        (case parseXor (snd (consume p)) of (r, p2) \<Rightarrow>
           (case mkBinary C_IMPLIES [c_implies] l r p2 of (l', p3) \<Rightarrow> parseImplies_loop l' p3))
      else (l, p))"
| "parseXor p = (case parseOr p of (l, p1) \<Rightarrow> parseXor_loop l p1)"
| "parseXor_loop l p =
     (if ttype (peek p) = T_XOR then
        (case parseOr (snd (consume p)) of (r, p2) \<Rightarrow>
           (case mkBinary C_XOR [c_xor] l r p2 of (l', p3) \<Rightarrow> parseXor_loop l' p3))
      else (l, p))"
| "parseOr p = (case parseAnd p of (l, p1) \<Rightarrow> parseOr_loop l p1)"
| "parseOr_loop l p =
     (if ttype (peek p) = T_OR then
        (case parseAnd (snd (consume p)) of (r, p2) \<Rightarrow>
           (case mkBinary C_OR [c_or] l r p2 of (l', p3) \<Rightarrow> parseOr_loop l' p3))
      else (l, p))"
| "parseAnd p = (case parseNot p of (l, p1) \<Rightarrow> parseAnd_loop l p1)"
| "parseAnd_loop l p =
     (if ttype (peek p) = T_AND then
        (case parseNot (snd (consume p)) of (r, p2) \<Rightarrow>
           (case mkBinary C_AND [c_and] l r p2 of (l', p3) \<Rightarrow> parseAnd_loop l' p3))
      else (l, p))"
| "parseNot p =
     (if ttype (peek p) = T_NOT then
        (case consume p of (token, p1) \<Rightarrow>
           (case parseNot p1 of (x, p2) \<Rightarrow>
              (case generateId p2 of (i, p3) \<Rightarrow>
                 (NotNode i x (tvalue token @ expression x) (depth x + 1), p3))))
      else parseFactor p)"
| "parseFactor p =
     (let token = peek p in
      if ttype token \<in> {T_LPAREN, T_LBRACKET, T_LBRACE} then
        (let openType = ttype token; openChar = tvalue token in
         case parseIFF (snd (consume p)) of (node, p2) \<Rightarrow>
           (let closeToken = peek p2;
                expectedCloseType = (if openType = T_LPAREN then T_RPAREN
                                     else if openType = T_LBRACKET then T_RBRACKET else T_RBRACE);
                expectedCloseChar = (if openType = T_LPAREN then js '')''
                                     else if openType = T_LBRACKET then js '']'' else js ''}'')
            in if ttype closeToken = expectedCloseType then
                 (setExpression node (openChar @ expression node @ expectedCloseChar),
                  snd (consume p2))
               else (node, p2)))
      else if ttype token = T_VAR then
        (case generateId (snd (consume p)) of (i, p2) \<Rightarrow>
           (VarNode i (tvalue token) (tvalue token) 0, p2))
      else
        (case generateId (snd (consume p)) of (i, p2) \<Rightarrow>
           (VarNode i (js ''?'') (js ''?'') 0, p2)))"
  by pat_completeness auto


text \<open>
  The domain of the recursion, and the fact the termination proof needs of a nested call: a
  method never moves the position back and leaves the tokens as they are.
\<close>

abbreviation parse_dom where
  "parse_dom \<equiv> parseIFF_parseIFF_loop_parseImplies_parseImplies_loop_parseXor_parseXor_loop_parseOr_parseOr_loop_parseAnd_parseAnd_loop_parseNot_parseFactor_dom"

definition advances :: "Parser \<Rightarrow> Parser \<Rightarrow> bool" where
  "advances p p' = (tokens p' = tokens p \<and> pos p \<le> pos p')"

lemma advances_refl: "advances p p"
  by (simp add: advances_def)

lemma advances_trans: "advances p q \<Longrightarrow> advances q r \<Longrightarrow> advances p r"
  by (auto simp: advances_def)

lemma advances_consume: "advances p (snd (consume p))"
  by (simp add: advances_def consume_def)

lemma advances_generateId: "advances p (snd (generateId p))"
  by (simp add: advances_def generateId_def)

lemma advances_mkBinary: "advances p (snd (mkBinary t s l r p))"
  by (simp add: advances_def mkBinary_def generateId_def)

lemma parse_advances_dom:
  "parse_dom (Inl (Inl (Inl p))) \<Longrightarrow> advances p (snd (parseIFF p))"
  "parse_dom (Inl (Inl (Inr (Inl (l, p))))) \<Longrightarrow> advances p (snd (parseIFF_loop l p))"
  "parse_dom (Inl (Inl (Inr (Inr p)))) \<Longrightarrow> advances p (snd (parseImplies p))"
  "parse_dom (Inl (Inr (Inl (l, p)))) \<Longrightarrow> advances p (snd (parseImplies_loop l p))"
  "parse_dom (Inl (Inr (Inr (Inl p)))) \<Longrightarrow> advances p (snd (parseXor p))"
  "parse_dom (Inl (Inr (Inr (Inr (l, p))))) \<Longrightarrow> advances p (snd (parseXor_loop l p))"
  "parse_dom (Inr (Inl (Inl p))) \<Longrightarrow> advances p (snd (parseOr p))"
  "parse_dom (Inr (Inl (Inr (Inl (l, p))))) \<Longrightarrow> advances p (snd (parseOr_loop l p))"
  "parse_dom (Inr (Inl (Inr (Inr p)))) \<Longrightarrow> advances p (snd (parseAnd p))"
  "parse_dom (Inr (Inr (Inl (l, p)))) \<Longrightarrow> advances p (snd (parseAnd_loop l p))"
  "parse_dom (Inr (Inr (Inr (Inl p)))) \<Longrightarrow> advances p (snd (parseNot p))"
  "parse_dom (Inr (Inr (Inr (Inr p)))) \<Longrightarrow> advances p (snd (parseFactor p))"
proof (induct rule: parseIFF_parseIFF_loop_parseImplies_parseImplies_loop_parseXor_parseXor_loop_parseOr_parseOr_loop_parseAnd_parseAnd_loop_parseNot_parseFactor.pinduct)
  case (1 p)
  then show ?case
    by (auto simp: parseIFF.psimps split: prod.splits intro: advances_trans dest: sym)
next
  case (2 l p)
  show ?case
  proof (cases "ttype (peek p) = T_IFF")
    case True
    obtain r p2 where a: "parseImplies (snd (consume p)) = (r, p2)"
      by (cases "parseImplies (snd (consume p))")
    obtain l' p3 where b: "mkBinary C_IFF [c_iff] l r p2 = (l', p3)"
      by (cases "mkBinary C_IFF [c_iff] l r p2")
    from 2(2) [OF True] a have "advances (snd (consume p)) p2" by simp
    moreover from b have "advances p2 p3"
      using advances_mkBinary [of p2 C_IFF "[c_iff]" l r] by simp
    moreover from 2(3) [OF True a [symmetric] b [symmetric]]
    have "advances p3 (snd (parseIFF_loop l' p3))" .
    ultimately have "advances p (snd (parseIFF_loop l' p3))"
      using advances_consume [of p] by (blast intro: advances_trans)
    then show ?thesis using True a b 2(1) by (simp add: parseIFF_loop.psimps)
  next
    case False
    then show ?thesis using 2(1) by (simp add: parseIFF_loop.psimps advances_refl)
  qed
next
  case (3 p)
  then show ?case
    by (auto simp: parseImplies.psimps split: prod.splits intro: advances_trans dest: sym)
next
  case (4 l p)
  show ?case
  proof (cases "ttype (peek p) = T_IMPLIES")
    case True
    obtain r p2 where a: "parseXor (snd (consume p)) = (r, p2)"
      by (cases "parseXor (snd (consume p))")
    obtain l' p3 where b: "mkBinary C_IMPLIES [c_implies] l r p2 = (l', p3)"
      by (cases "mkBinary C_IMPLIES [c_implies] l r p2")
    from 4(2) [OF True] a have "advances (snd (consume p)) p2" by simp
    moreover from b have "advances p2 p3"
      using advances_mkBinary [of p2 C_IMPLIES "[c_implies]" l r] by simp
    moreover from 4(3) [OF True a [symmetric] b [symmetric]]
    have "advances p3 (snd (parseImplies_loop l' p3))" .
    ultimately have "advances p (snd (parseImplies_loop l' p3))"
      using advances_consume [of p] by (blast intro: advances_trans)
    then show ?thesis using True a b 4(1) by (simp add: parseImplies_loop.psimps)
  next
    case False
    then show ?thesis using 4(1) by (simp add: parseImplies_loop.psimps advances_refl)
  qed
next
  case (5 p)
  then show ?case
    by (auto simp: parseXor.psimps split: prod.splits intro: advances_trans dest: sym)
next
  case (6 l p)
  show ?case
  proof (cases "ttype (peek p) = T_XOR")
    case True
    obtain r p2 where a: "parseOr (snd (consume p)) = (r, p2)"
      by (cases "parseOr (snd (consume p))")
    obtain l' p3 where b: "mkBinary C_XOR [c_xor] l r p2 = (l', p3)"
      by (cases "mkBinary C_XOR [c_xor] l r p2")
    from 6(2) [OF True] a have "advances (snd (consume p)) p2" by simp
    moreover from b have "advances p2 p3"
      using advances_mkBinary [of p2 C_XOR "[c_xor]" l r] by simp
    moreover from 6(3) [OF True a [symmetric] b [symmetric]]
    have "advances p3 (snd (parseXor_loop l' p3))" .
    ultimately have "advances p (snd (parseXor_loop l' p3))"
      using advances_consume [of p] by (blast intro: advances_trans)
    then show ?thesis using True a b 6(1) by (simp add: parseXor_loop.psimps)
  next
    case False
    then show ?thesis using 6(1) by (simp add: parseXor_loop.psimps advances_refl)
  qed
next
  case (7 p)
  then show ?case
    by (auto simp: parseOr.psimps split: prod.splits intro: advances_trans dest: sym)
next
  case (8 l p)
  show ?case
  proof (cases "ttype (peek p) = T_OR")
    case True
    obtain r p2 where a: "parseAnd (snd (consume p)) = (r, p2)"
      by (cases "parseAnd (snd (consume p))")
    obtain l' p3 where b: "mkBinary C_OR [c_or] l r p2 = (l', p3)"
      by (cases "mkBinary C_OR [c_or] l r p2")
    from 8(2) [OF True] a have "advances (snd (consume p)) p2" by simp
    moreover from b have "advances p2 p3"
      using advances_mkBinary [of p2 C_OR "[c_or]" l r] by simp
    moreover from 8(3) [OF True a [symmetric] b [symmetric]]
    have "advances p3 (snd (parseOr_loop l' p3))" .
    ultimately have "advances p (snd (parseOr_loop l' p3))"
      using advances_consume [of p] by (blast intro: advances_trans)
    then show ?thesis using True a b 8(1) by (simp add: parseOr_loop.psimps)
  next
    case False
    then show ?thesis using 8(1) by (simp add: parseOr_loop.psimps advances_refl)
  qed
next
  case (9 p)
  then show ?case
    by (auto simp: parseAnd.psimps split: prod.splits intro: advances_trans dest: sym)
next
  case (10 l p)
  show ?case
  proof (cases "ttype (peek p) = T_AND")
    case True
    obtain r p2 where a: "parseNot (snd (consume p)) = (r, p2)"
      by (cases "parseNot (snd (consume p))")
    obtain l' p3 where b: "mkBinary C_AND [c_and] l r p2 = (l', p3)"
      by (cases "mkBinary C_AND [c_and] l r p2")
    from 10(2) [OF True] a have "advances (snd (consume p)) p2" by simp
    moreover from b have "advances p2 p3"
      using advances_mkBinary [of p2 C_AND "[c_and]" l r] by simp
    moreover from 10(3) [OF True a [symmetric] b [symmetric]]
    have "advances p3 (snd (parseAnd_loop l' p3))" .
    ultimately have "advances p (snd (parseAnd_loop l' p3))"
      using advances_consume [of p] by (blast intro: advances_trans)
    then show ?thesis using True a b 10(1) by (simp add: parseAnd_loop.psimps)
  next
    case False
    then show ?thesis using 10(1) by (simp add: parseAnd_loop.psimps advances_refl)
  qed
next
  case (11 p)
  show ?case
  proof (cases "ttype (peek p) = T_NOT")
    case True
    obtain token p1 where a: "consume p = (token, p1)" by (cases "consume p")
    from 11(2) [OF True a [symmetric]] have "advances p1 (snd (parseNot p1))" .
    moreover have "advances p p1" using advances_consume [of p] a by simp
    ultimately have "advances p (snd (parseNot p1))" by (rule advances_trans [rotated])
    then show ?thesis using True a 11(1)
      by (auto simp: parseNot.psimps generateId_def advances_def split: prod.splits)
  next
    case False
    then show ?thesis using 11 by (simp add: parseNot.psimps)
  qed
next
  case (12 p)
  show ?case
  proof (cases "ttype (peek p) \<in> {T_LPAREN, T_LBRACKET, T_LBRACE}")
    case True
    have "advances (snd (consume p)) (snd (parseIFF (snd (consume p))))"
      using 12(2) [OF refl True refl refl] .
    then have "advances p (snd (parseIFF (snd (consume p))))"
      using advances_consume [of p] by (blast intro: advances_trans)
    then show ?thesis using True 12(1)
      by (auto simp: parseFactor.psimps Let_def consume_def advances_def split: prod.splits)
  next
    case False
    then show ?thesis using 12(1)
      by (auto simp: parseFactor.psimps Let_def consume_def generateId_def advances_def
          split: prod.splits)
  qed
qed

lemma peek_in_range: "ttype (peek p) \<noteq> T_EOF \<Longrightarrow> pos p < length (tokens p)"
  by (auto simp: peek_def split: if_splits)

lemma remaining_consume:
  "ttype (peek p) \<noteq> T_EOF \<Longrightarrow> remaining (snd (consume p)) < remaining p"
  by (frule peek_in_range) (simp add: remaining_def consume_def)

lemma remaining_advances: "advances p p' \<Longrightarrow> remaining p' \<le> remaining p"
  by (auto simp: advances_def remaining_def)

lemma remaining_mkBinary: "remaining (snd (mkBinary t s l r p)) = remaining p"
  by (simp add: remaining_def mkBinary_def generateId_def)


definition parse_rank :: "nat \<Rightarrow> Parser \<Rightarrow> nat \<times> nat" where
  "parse_rank k p = (remaining p, k)"

lemma term_same:
  "advances p (snd res) \<Longrightarrow> 0 < k \<Longrightarrow>
   (case res of (l, q) \<Rightarrow> parse_rank 0 q, remaining p, k) \<in> less_than <*lex*> less_than"
  by (cases res) (auto simp: parse_rank_def dest: remaining_advances)

lemma term_consume:
  "ttype (peek p) = t \<Longrightarrow> t \<noteq> T_EOF \<Longrightarrow> (x, y) = consume p \<Longrightarrow> remaining y < remaining p"
  using remaining_consume [of p] by (cases "consume p") auto

lemma term_loop:
  assumes "ttype (peek p) = t" "t \<noteq> T_EOF"
    and "advances (snd (consume p)) (snd res)" "(x, y) = res"
  shows "(case mkBinary c s l x y of (l, q) \<Rightarrow> parse_rank 0 q, remaining p, 0)
           \<in> less_than <*lex*> less_than"
proof -
  have "remaining (snd (consume p)) < remaining p"
    using assms(1,2) by (intro remaining_consume) simp
  moreover have "remaining y \<le> remaining (snd (consume p))"
    using assms(3,4) by (auto dest: remaining_advances)
  moreover have "remaining (snd (mkBinary c s l x y)) = remaining y"
    by (rule remaining_mkBinary)
  ultimately show ?thesis by (cases "mkBinary c s l x y") (simp add: parse_rank_def)
qed

text \<open>
  Every call of the parser ends: a call either hands the same state to a method further
  down the precedence chain, or it has consumed a token that is present.
\<close>

lemma parse_terminates: "parse_dom x"
proof -
  have "All parse_dom"
    apply (relation "inv_image (less_than <*lex*> less_than) (\<lambda>x. case x of
      Inl (Inl (Inl p)) \<Rightarrow> parse_rank 6 p
      | Inl (Inl (Inr (Inl (l, p)))) \<Rightarrow> parse_rank 0 p
      | Inl (Inl (Inr (Inr p))) \<Rightarrow> parse_rank 5 p
      | Inl (Inr (Inl (l, p))) \<Rightarrow> parse_rank 0 p
      | Inl (Inr (Inr (Inl p))) \<Rightarrow> parse_rank 4 p
      | Inl (Inr (Inr (Inr (l, p)))) \<Rightarrow> parse_rank 0 p
      | Inr (Inl (Inl p)) \<Rightarrow> parse_rank 3 p
      | Inr (Inl (Inr (Inl (l, p)))) \<Rightarrow> parse_rank 0 p
      | Inr (Inl (Inr (Inr p))) \<Rightarrow> parse_rank 2 p
      | Inr (Inr (Inl (l, p))) \<Rightarrow> parse_rank 0 p
      | Inr (Inr (Inr (Inl p))) \<Rightarrow> parse_rank 1 p
      | Inr (Inr (Inr (Inr p))) \<Rightarrow> parse_rank 0 p)")
    apply (simp_all add: parse_rank_def remaining_consume)
    apply (auto intro!: term_loop dest: parse_advances_dom)
    apply (auto intro!: term_same remaining_consume intro: term_consume dest: parse_advances_dom)
    done
  then show ?thesis ..
qed

termination parseIFF
  using parse_terminates by blast



declare parseIFF.simps [simp del] parseIFF_loop.simps [simp del]
  parseImplies.simps [simp del] parseImplies_loop.simps [simp del]
  parseXor.simps [simp del] parseXor_loop.simps [simp del]
  parseOr.simps [simp del] parseOr_loop.simps [simp del]
  parseAnd.simps [simp del] parseAnd_loop.simps [simp del]
  parseNot.simps [simp del] parseFactor.simps [simp del]

lemmas parser_simps = parseIFF.simps parseIFF_loop.simps parseImplies.simps
  parseImplies_loop.simps parseXor.simps parseXor_loop.simps parseOr.simps parseOr_loop.simps
  parseAnd.simps parseAnd_loop.simps parseNot.simps parseFactor.simps

text \<open>\<open>new Parser(tokens).parse()\<close>: the token left after the expression is not looked at.\<close>

definition newParser :: "Token list \<Rightarrow> Parser" where
  "newParser ts = \<lparr>tokens = ts, pos = 0, nodeIdCounter = 0\<rparr>"

definition parse :: "Token list \<Rightarrow> ASTNode" where
  "parse ts = fst (parseIFF (newParser ts))"

section \<open>Evaluator\<close>

text \<open>
  A \<open>context\<close> is a \<open>Record<string, boolean>\<close> that is only assigned to and read by key; it
  is a map, and a key without a value reads as \<open>undefined\<close>, which \<open>??\<close> turns into
  \<open>false\<close>.
\<close>

type_synonym Ctx = "jstring \<rightharpoonup> bool"

fun evaluateAST :: "ASTNode \<Rightarrow> Ctx \<Rightarrow> bool" where
  "evaluateAST (VarNode i v e d) ctx =
     (if v = js ''1'' then True
      else if v = js ''0'' then False
      else (case ctx v of Some b \<Rightarrow> b | None \<Rightarrow> False))"
| "evaluateAST (NotNode i x e d) ctx = (\<not> evaluateAST x ctx)"
| "evaluateAST (BinNode i t l r e d) ctx =
     (let lv = evaluateAST l ctx; rv = evaluateAST r ctx in
      case t of
        C_AND \<Rightarrow> lv \<and> rv
      | C_OR \<Rightarrow> lv \<or> rv
      | C_XOR \<Rightarrow> lv \<noteq> rv
      | C_IMPLIES \<Rightarrow> \<not> lv \<or> rv
      | C_IFF \<Rightarrow> lv = rv)"

text \<open>
  \<open>evaluateRawExpression\<close> on a stack that is never exhausted: the statements of its \<open>try\<close>
  block raise nothing else, so its \<open>catch\<close> branch is not reached.  The section on the call
  stack has the function with that branch.
\<close>

definition evaluateRawExpression :: "(jstring \<Rightarrow> jstring) \<Rightarrow> jstring \<Rightarrow> Ctx \<Rightarrow> bool" where
  "evaluateRawExpression up expr ctx = evaluateAST (parse (tokenize up expr)) ctx"

text \<open>The nodes of a tree in post-order, one for each distinct expression string.\<close>

definition addSubExpression :: "ASTNode \<Rightarrow> ASTNode list \<Rightarrow> ASTNode list" where
  "addSubExpression node list =
     (if find (\<lambda>n. expression n = expression node) list = None then list @ [node] else list)"

fun extractSubExpressions :: "ASTNode \<Rightarrow> ASTNode list \<Rightarrow> ASTNode list" where
  "extractSubExpressions (VarNode i v e d) list = addSubExpression (VarNode i v e d) list"
| "extractSubExpressions (NotNode i x e d) list =
     addSubExpression (NotNode i x e d) (extractSubExpressions x list)"
| "extractSubExpressions (BinNode i t l r e d) list =
     addSubExpression (BinNode i t l r e d)
       (extractSubExpressions r (extractSubExpressions l list))"

fun getDirectDependencies :: "ASTNode \<Rightarrow> nat list" where
  "getDirectDependencies (VarNode i v e d) = []"
| "getDirectDependencies (NotNode i x e d) = [nodeId x]"
| "getDirectDependencies (BinNode i t l r e d) = [nodeId l, nodeId r]"

fun calculateComplexity :: "ASTNode \<Rightarrow> nat \<times> nat" where
  "calculateComplexity (VarNode i v e d) = (0, 1)"
| "calculateComplexity (NotNode i x e d) =
     (case calculateComplexity x of (ops, dp) \<Rightarrow> (1 + ops, dp + 1))"
| "calculateComplexity (BinNode i t l r e d) =
     (case calculateComplexity l of (lops, ldp) \<Rightarrow>
      case calculateComplexity r of (rops, rdp) \<Rightarrow> (1 + (lops + rops), max ldp rdp + 1))"

section \<open>Objects used as dictionaries\<close>

text \<open>
  The \<open>values\<close> of a row is an object whose keys are expression strings.  Its own
  properties are kept in the order \<open>Object.values\<close> lists them: keys that are array
  indices first, in ascending numeric order, then all other keys in the order they were
  first assigned.
\<close>

text \<open>
  The keys read or written by the engine are expression strings and declared variables; they
  are taken not to be names of properties of \<open>Object.prototype\<close>, so that reading a key
  without an own property gives \<open>undefined\<close>.  An array index is the decimal form of a number
  below \<open>2^32 - 1\<close>, without leading zeros.
\<close>

type_synonym 'v jsobject = "(jstring \<times> 'v) list"

definition digitsValue :: "jstring \<Rightarrow> nat" where
  "digitsValue s = foldl (\<lambda>acc c. 10 * acc + (c - 48)) 0 s"

definition arrayIndex :: "jstring \<Rightarrow> nat option" where
  "arrayIndex k =
     (if k \<noteq> [] \<and> list_all (\<lambda>c. 48 \<le> c \<and> c \<le> 57) k \<and> (length k = 1 \<or> hd k \<noteq> 48)
         \<and> digitsValue k < 4294967295
      then Some (digitsValue k) else None)"

definition precedes :: "jstring \<Rightarrow> jstring \<Rightarrow> bool" where
  "precedes k k' =
     (case arrayIndex k of
        None \<Rightarrow> False
      | Some n \<Rightarrow> (case arrayIndex k' of None \<Rightarrow> True | Some m \<Rightarrow> n < m))"

fun obj_insert :: "jstring \<Rightarrow> 'v \<Rightarrow> 'v jsobject \<Rightarrow> 'v jsobject" where
  "obj_insert k v [] = [(k, v)]"
| "obj_insert k v ((k', v') # rest) =
     (if precedes k k' then (k, v) # (k', v') # rest else (k', v') # obj_insert k v rest)"

definition obj_get :: "'v jsobject \<Rightarrow> jstring \<Rightarrow> 'v option" where
  "obj_get obj k = map_of obj k"

definition obj_set :: "'v jsobject \<Rightarrow> jstring \<Rightarrow> 'v \<Rightarrow> 'v jsobject" where
  "obj_set obj k v =
     (if k \<in> fst ` set obj then map (\<lambda>(k', v'). if k' = k then (k', v) else (k', v')) obj
      else obj_insert k v obj)"

definition obj_values :: "'v jsobject \<Rightarrow> 'v list" where
  "obj_values obj = map snd obj"

text \<open>The truth of \<open>obj[k]\<close> as a condition: a missing value is \<open>undefined\<close>, which is falsy.\<close>

definition truthy :: "bool option \<Rightarrow> bool" where
  "truthy v = (v = Some True)"

section \<open>Columns and rows\<close>

text \<open>
  Node identifiers are the strings \<open>node-0\<close>, \<open>node-1\<close>, ...; a node identifier is
  modelled by its number.  Column identifiers are \<open>var-v\<close> or a node identifier, row
  identifiers are \<open>row-0\<close>, \<open>row-1\<close>, ...
\<close>

datatype ColumnId = VarColumn jstring | NodeColumn nat

record TableColumn =
  colId :: ColumnId
  colLabel :: jstring
  colExpression :: jstring
  isInput :: bool
  isOutput :: bool
  astId :: "nat option"
  dependencyIds :: "nat list option"

record TruthTableRow =
  rowId :: nat
  rowIndex :: nat
  vals :: "bool jsobject"

text \<open>\<open>nodes.find(n => n.id === astId)\<close>\<close>

definition findNode :: "nat option \<Rightarrow> ASTNode list \<Rightarrow> ASTNode option" where
  "findNode aid nodes = find (\<lambda>n. Some (nodeId n) = aid) nodes"

text \<open>
  \<open>recalculateRow\<close>: the context is read from the row under the expressions of the input
  columns; every other column whose node is found is evaluated again.
\<close>

definition inputContext :: "TableColumn list \<Rightarrow> bool jsobject \<Rightarrow> Ctx" where
  "inputContext columns rowValues =
     fold (\<lambda>c ctx. ctx(colExpression c := obj_get rowValues (colExpression c)))
       (filter isInput columns) Map.empty"

definition recalculateColumn ::
    "ASTNode \<Rightarrow> ASTNode list \<Rightarrow> Ctx \<Rightarrow> TableColumn \<Rightarrow> bool jsobject \<Rightarrow> bool jsobject" where
  "recalculateColumn ast subExprNodes ctx col newValues =
     (if \<not> isInput col then
        (case (case findNode (astId col) subExprNodes of
                 Some n \<Rightarrow> Some n
               | None \<Rightarrow> if astId col = Some (nodeId ast) then Some ast else None) of
           Some node \<Rightarrow> obj_set newValues (colExpression col) (evaluateAST node ctx)
         | None \<Rightarrow> newValues)
      else newValues)"

definition recalculateRow :: "TruthTableRow \<Rightarrow> TableColumn list \<Rightarrow> ASTNode \<Rightarrow> TruthTableRow" where
  "recalculateRow row columns ast =
     (let subExprNodes = extractSubExpressions ast [];
          ctx = inputContext columns (vals row);
          newValues = fold (recalculateColumn ast subExprNodes ctx) columns (vals row)
      in row\<lparr>vals := newValues\<rparr>)"


section \<open>RightAway engine\<close>

record RightAwayResult =
  isApplicable :: bool
  resultValue :: "bool option"
  explanation :: jstring

fun isZero :: "ASTNode \<Rightarrow> bool" where
  "isZero (VarNode i v e d) = (v = js ''0'')"
| "isZero n = False"

fun isOne :: "ASTNode \<Rightarrow> bool" where
  "isOne (VarNode i v e d) = (v = js ''1'')"
| "isOne n = False"

fun negatedOperandExpression :: "ASTNode \<Rightarrow> jstring option" where
  "negatedOperandExpression (NotNode i x e d) = Some (expression x)"
| "negatedOperandExpression n = None"

definition isNegationOf :: "ASTNode \<Rightarrow> ASTNode \<Rightarrow> bool" where
  "isNegationOf a b =
     (if negatedOperandExpression a = Some (expression b) then True
      else if negatedOperandExpression b = Some (expression a) then True
      else False)"

text \<open>
  The patterns of the RightAway engine, in the order the source tries them.  The field
  \<open>variable\<close> of a result is never set and is left out.
\<close>

definition rightAwayResult :: "bool \<Rightarrow> jstring \<Rightarrow> RightAwayResult option" where
  "rightAwayResult v text =
     Some \<lparr>isApplicable = True, resultValue = Some v, explanation = text\<rparr>"

fun analyzeRightAwayEngine :: "ASTNode \<Rightarrow> RightAwayResult option" where
  "analyzeRightAwayEngine (BinNode i t l r e d) =
     (if t = C_IMPLIES \<and> isZero l then
        rightAwayResult True (js ''Antecedent is 0. Implication is always True.'')
      else if t = C_IMPLIES \<and> isOne r then
        rightAwayResult True (js ''Consequent is 1. Implication is always True.'')
      else if t = C_IMPLIES \<and> isOne l \<and> isZero r then
        rightAwayResult False (js ''True cannot imply False.'')
      else if t = C_AND \<and> (isZero l \<or> isZero r) then
        rightAwayResult False (js ''AND with 0 is always False.'')
      else if t = C_OR \<and> (isOne l \<or> isOne r) then
        rightAwayResult True (js ''OR with 1 is always True.'')
      else if (t = C_IMPLIES \<or> t = C_IFF) \<and> expression l = expression r then
        rightAwayResult True (js ''Self-implication or Equivalence is always True.'')
      else if t = C_AND \<and> (isNegationOf l r \<or> isNegationOf r l) then
        rightAwayResult False
          (js ''Contradiction (X '' @ [c_and] @ js '' '' @ [c_not] @ js ''X) detected.'')
      else if t = C_OR \<and> (isNegationOf l r \<or> isNegationOf r l) then
        rightAwayResult True
          (js ''Tautology (X '' @ [c_or] @ js '' '' @ [c_not] @ js ''X) detected.'')
      else None)"
| "analyzeRightAwayEngine n = None"

section \<open>Shortened truth table\<close>

datatype Classification = Tautology | Contradiction | Contingency

record STTTResult =
  criticalRowId :: "nat option"
  reasoning :: jstring

text \<open>A number in a template string.\<close>

function showNat :: "nat \<Rightarrow> jstring" where
  "showNat n = (if n < 10 then [48 + n] else showNat (n div 10) @ [48 + n mod 10])"
  by pat_completeness auto
termination
  by (relation "measure id") auto

declare showNat.simps [simp del]

definition performSTTT ::
    "TruthTableRow list \<Rightarrow> jstring \<Rightarrow> Classification \<Rightarrow> STTTResult option" where
  "performSTTT rows astExpression classification =
     (if classification = Tautology then
        Some \<lparr>criticalRowId = None,
              reasoning = js ''No counter-example found (all rows True). Proved Tautology.''\<rparr>
      else if classification = Contradiction then
        Some \<lparr>criticalRowId = None,
              reasoning = js ''No row evaluated to True. Proved Contradiction.''\<rparr>
      else
        (case find (\<lambda>r. \<not> truthy (obj_get (vals r) astExpression)) rows of
           None \<Rightarrow> None
         | Some falseRow \<Rightarrow>
             (case find (\<lambda>r. truthy (obj_get (vals r) astExpression)) rows of
                None \<Rightarrow> None
              | Some trueRow \<Rightarrow>
                  Some \<lparr>criticalRowId = Some (rowId falseRow),
                        reasoning = js ''Proven Contingent. Row '' @ showNat (rowIndex falseRow + 1)
                          @ js '' is False, while others are True.''\<rparr>)))"


section \<open>Karnaugh map\<close>

text \<open>
  What can be raised: the \<open>Error\<close> thrown by \<open>analyzeLogic\<close>, with its message, and the
  \<open>TypeError\<close> of reading a property of \<open>undefined\<close>.
\<close>

datatype error = Error jstring | TypeError | RangeError

record KMapCell =
  cellValue :: bool
  mintermIndex :: nat

record KMapGroup =
  cells :: "(nat \<times> nat) list"
  color :: jstring
  gterm :: jstring

record KMapData =
  kvariables :: "jstring list"
  grid :: "KMapCell list list"
  rowLabels :: "jstring list"
  colLabels :: "jstring list"
  groups :: "KMapGroup list"
  minimizedExpression :: jstring

definition getGrayCode :: "nat \<Rightarrow> jstring list" where
  "getGrayCode n =
     (if n = 1 then [js ''0'', js ''1'']
      else if n = 2 then [js ''00'', js ''01'', js ''11'', js ''10'']
      else [])"

text \<open>\<open>parseInt(bits, 2)\<close> on a string of binary digits.\<close>

definition parseInt2 :: "jstring \<Rightarrow> nat" where
  "parseInt2 bits = foldl (\<lambda>acc c. 2 * acc + (c - 48)) 0 bits"

text \<open>
  \<open>generateTerm\<close>: a variable is kept when all minterms of the group agree on its bit.
  The parameters \<open>numRows\<close> and \<open>numCols\<close> are not used by the source either.
\<close>

definition generateTerm ::
    "nat list \<Rightarrow> jstring list \<Rightarrow> jstring list \<Rightarrow> nat \<Rightarrow> nat \<Rightarrow> jstring" where
  "generateTerm minterms rowVars colVars numRows numCols =
     (let allVars = rowVars @ colVars;
          totalBits = length allVars;
          bitOf = (\<lambda>i m. drop_bit (totalBits - 1 - i) m AND 1);
          literal = (\<lambda>i.
            case minterms of
              [] \<Rightarrow> []
            | m # ms \<Rightarrow>
                if list_all (\<lambda>m'. bitOf i m' = bitOf i m) ms then
                  (if bitOf i m = 1 then allVars ! i else [c_not] @ allVars ! i)
                else []);
          term = concat (map literal [0..<totalBits])
      in if term \<noteq> [] then term else js ''1'')"

definition colors :: "jstring list" where
  "colors = [js ''bg-red-500/20 border-red-500'', js ''bg-blue-500/20 border-blue-500'',
             js ''bg-green-500/20 border-green-500'', js ''bg-yellow-500/20 border-yellow-500'',
             js ''bg-purple-500/20 border-purple-500'', js ''bg-orange-500/20 border-orange-500'']"

text \<open>
  \<open>Number.isInteger(Math.log2(n))\<close>: the logarithm of a power of two is computed
  exactly, so the test is that \<open>n\<close> is a power of two.
\<close>

definition isPowerOfTwo :: "nat \<Rightarrow> bool" where
  "isPowerOfTwo n = (n \<in> set (map (\<lambda>k. 2 ^ k) [0..<n]))"

definition sizes :: "nat \<Rightarrow> nat \<Rightarrow> (nat \<times> nat \<times> nat) list" where
  "sizes rows cols =
     sort_key (\<lambda>(h, w, area). - int area)
       (concat (map (\<lambda>h. concat (map (\<lambda>w.
          if h \<le> rows \<and> w \<le> cols \<and> isPowerOfTwo (h * w) then [(h, w, h * w)] else [])
          [4, 2, 1])) [4, 2, 1]))"

text \<open>\<open>grid[rr][cc]\<close>; reading a property of \<open>undefined\<close> is a \<open>TypeError\<close>.\<close>

definition cellAt :: "KMapCell list list \<Rightarrow> nat \<Rightarrow> nat \<Rightarrow> KMapCell option" where
  "cellAt g rr cc =
     (if rr < length g \<and> cc < length (g ! rr) then Some (g ! rr ! cc) else None)"

text \<open>
  The two inner loops over \<open>i\<close> and \<open>j\<close>, on the list of the cells they visit in order.
  The result is \<open>None\<close> when a cell is not set (\<open>allOnes = false\<close>, both loops are left).
\<close>

fun collectCells ::
    "KMapCell list list \<Rightarrow> (nat \<times> nat) list \<Rightarrow> (nat \<times> nat) list \<times> nat list
     \<Rightarrow> error + ((nat \<times> nat) list \<times> nat list) option" where
  "collectCells g [] acc = Inr (Some acc)"
| "collectCells g ((rr, cc) # rest) (cs, currentMinterms) =
     (case cellAt g rr cc of
        None \<Rightarrow> Inl TypeError
      | Some cell \<Rightarrow>
          if \<not> cellValue cell then Inr None
          else collectCells g rest (cs @ [(rr, cc)], set_add (mintermIndex cell) currentMinterms))"

definition groupCoordinates :: "nat \<Rightarrow> nat \<Rightarrow> nat \<times> nat \<times> nat \<Rightarrow> nat \<Rightarrow> nat \<Rightarrow> (nat \<times> nat) list" where
  "groupCoordinates rows cols sz r c =
     (case sz of (h, w, area) \<Rightarrow>
        concat (map (\<lambda>i. map (\<lambda>j. ((r + i) mod rows, (c + j) mod cols)) [0..<w]) [0..<h]))"

text \<open>The body of the loop over \<open>c\<close>: one candidate group, on the groups accepted so far.\<close>

definition tryGroup ::
    "KMapCell list list \<Rightarrow> jstring list \<Rightarrow> jstring list \<Rightarrow> jstring list \<Rightarrow> jstring list
     \<Rightarrow> nat \<Rightarrow> nat \<Rightarrow> nat \<times> nat \<times> nat \<Rightarrow> nat \<Rightarrow> nat
     \<Rightarrow> KMapGroup list \<times> nat list \<Rightarrow> error + KMapGroup list \<times> nat list" where
  "tryGroup g rowVars colVars rowGray colGray rows cols sz r c st =
     (case st of (gs, coveredMinterms) \<Rightarrow>
      case collectCells g (groupCoordinates rows cols sz r c) ([], []) of
        Inl e \<Rightarrow> Inl e
      | Inr None \<Rightarrow> Inr st
      | Inr (Some (cs, currentMinterms)) \<Rightarrow>
          if list_ex (\<lambda>m. m \<notin> set coveredMinterms) currentMinterms then
            (let term = generateTerm currentMinterms rowVars colVars
                          (length rowGray) (length colGray)
             in Inr (gs @ [\<lparr>cells = cs, color = colors ! (length gs mod length colors),
                             gterm = term\<rparr>],
                     fold set_add currentMinterms coveredMinterms))
          else Inr st)"

text \<open>A loop whose body may raise: the first error ends it.\<close>

fun foldE :: "('a \<Rightarrow> 's \<Rightarrow> error + 's) \<Rightarrow> 'a list \<Rightarrow> 's \<Rightarrow> error + 's" where
  "foldE f [] st = Inr st"
| "foldE f (x # xs) st = (case f x st of Inl e \<Rightarrow> Inl e | Inr st' \<Rightarrow> foldE f xs st')"

definition solveKMap ::
    "KMapCell list list \<Rightarrow> nat list \<Rightarrow> jstring list \<Rightarrow> jstring list \<Rightarrow> jstring list
     \<Rightarrow> jstring list \<Rightarrow> error + KMapGroup list \<times> jstring" where
  "solveKMap g onMinterms rowVars colVars rowGray colGray =
     (case g of
        [] \<Rightarrow> Inl TypeError
      | row0 # _ \<Rightarrow>
          (let rows = length g; cols = length row0 in
           case foldE (\<lambda>sz.
                   foldE (\<lambda>r.
                     foldE (\<lambda>c. tryGroup g rowVars colVars rowGray colGray rows cols sz r c)
                       [0..<cols])
                     [0..<rows])
                  (sizes rows cols) ([], []) of
             Inl e \<Rightarrow> Inl e
           | Inr (gs, coveredMinterms) \<Rightarrow>
               Inr (gs, join (js '' '' @ [c_or] @ js '' '') (map gterm gs))))"

text \<open>
  The minterm of a row: bit \<open>n - 1 - i\<close> is set when the value of the \<open>i\<close>-th variable is
  truthy.  The value of a row is the last of \<open>Object.values(row.values)\<close>, \<open>undefined\<close>
  for an object without properties.
\<close>

definition rowMinterm :: "jstring list \<Rightarrow> TruthTableRow \<Rightarrow> nat" where
  "rowMinterm variables row =
     fold (\<lambda>(v, i) minterm.
             if truthy (obj_get (vals row) v)
             then minterm OR push_bit (length variables - 1 - i) 1 else minterm)
       (zip variables [0..<length variables]) 0"

definition lastValue :: "bool jsobject \<Rightarrow> bool option" where
  "lastValue obj = (if obj_values obj = [] then None else Some (last (obj_values obj)))"

text \<open>The loop over the rows, which fills \<open>onMinterms\<close> and \<open>mintermMap\<close>.\<close>

definition collectMinterms ::
    "jstring list \<Rightarrow> TruthTableRow list \<Rightarrow> nat list \<times> (nat \<rightharpoonup> bool option)" where
  "collectMinterms variables rows =
     fold (\<lambda>row (onMinterms, mintermMap).
             (let minterm = rowMinterm variables row;
                  resultVal = lastValue (vals row)
              in (if truthy resultVal then set_add minterm onMinterms else onMinterms,
                  mintermMap(minterm \<mapsto> resultVal))))
       rows ([], Map.empty)"

text \<open>
  The two loops that fill the grid; \<open>mintermMap.get(mintermIndex) || false\<close> is true only
  for a stored \<open>true\<close>.
\<close>

definition buildGrid ::
    "(nat \<rightharpoonup> bool option) \<Rightarrow> jstring list \<Rightarrow> jstring list \<Rightarrow> KMapCell list list" where
  "buildGrid mintermMap rowGray colGray =
     map (\<lambda>rg. map (\<lambda>cg.
            (let bits = rg @ cg; idx = parseInt2 bits
             in \<lparr>cellValue = (mintermMap idx = Some (Some True)), mintermIndex = idx\<rparr>))
          colGray) rowGray"

definition generateKMap :: "jstring list \<Rightarrow> TruthTableRow list \<Rightarrow> error + KMapData option" where
  "generateKMap variables rows =
     (let numVars = length variables in
      if numVars < 2 \<or> numVars > 4 then Inr None
      else
        (let rowVars = (if numVars = 2 then [variables ! 0]
                        else if numVars = 3 then [variables ! 0] else take 2 variables);
             colVars = (if numVars = 2 then [variables ! 1]
                        else if numVars = 3 then drop 1 variables else drop 2 variables);
             rowGray = getGrayCode (length rowVars);
             colGray = getGrayCode (length colVars);
             (onMinterms, mintermMap) = collectMinterms variables rows;
             g = buildGrid mintermMap rowGray colGray
         in case solveKMap g onMinterms rowVars colVars rowGray colGray of
              Inl e \<Rightarrow> Inl e
            | Inr (gs, minExpr) \<Rightarrow>
                Inr (Some \<lparr>kvariables = variables, grid = g, rowLabels = rowGray,
                           colLabels = colGray, groups = gs,
                           minimizedExpression =
                             (if minExpr \<noteq> [] then minExpr
                              else if onMinterms = [] then js ''0'' else js ''1'')\<rparr>)))"

section \<open>Implication forms\<close>

record ImplicationForms =
  original :: jstring
  converse :: jstring
  inverse :: jstring
  contrapositive :: jstring

text \<open>\<open>clean\<close>: \<open>s.slice(1, -1)\<close> when \<open>s\<close> starts with \<open>(\<close> and ends with \<open>)\<close>.\<close>

definition clean :: "jstring \<Rightarrow> jstring" where
  "clean s = (if startsWith s (js ''('') \<and> endsWith s (js '')'') then butlast (tl s) else s)"

fun generateImplicationForms :: "ASTNode \<Rightarrow> ImplicationForms option" where
  "generateImplicationForms (BinNode i t l r e d) =
     (if t \<noteq> C_IMPLIES then None
      else
        (let P = expression l; Q = expression r;
             pClean = clean P; qClean = clean Q;
             arrow = js '' '' @ [c_implies] @ js '' ''
         in Some \<lparr>original = P @ arrow @ Q,
                  converse = Q @ arrow @ P,
                  inverse = [c_not] @ js ''('' @ pClean @ js '')'' @ arrow
                            @ [c_not] @ js ''('' @ qClean @ js '')'',
                  contrapositive = [c_not] @ js ''('' @ qClean @ js '')'' @ arrow
                            @ [c_not] @ js ''('' @ pClean @ js '')''\<rparr>))"
| "generateImplicationForms n = None"

section \<open>Main analysis\<close>

datatype NodeType = N_VAR | N_NOT | N_AND | N_OR | N_IMPLIES | N_IFF | N_XOR

fun nodeType :: "ASTNode \<Rightarrow> NodeType" where
  "nodeType (VarNode i v e d) = N_VAR"
| "nodeType (NotNode i x e d) = N_NOT"
| "nodeType (BinNode i t l r e d) =
     (case t of C_AND \<Rightarrow> N_AND | C_OR \<Rightarrow> N_OR | C_XOR \<Rightarrow> N_XOR
              | C_IMPLIES \<Rightarrow> N_IMPLIES | C_IFF \<Rightarrow> N_IFF)"

record ComplexityMetrics =
  operators :: nat
  complexityDepth :: nat
  numVariables :: nat
  totalRows :: nat

record AnalysisResult =
  ast :: ASTNode
  columns :: "TableColumn list"
  rows :: "TruthTableRow list"
  variables :: "jstring list"
  classification :: Classification
  mainConnective :: NodeType
  implicationForms :: "ImplicationForms option"
  kMapData :: "KMapData option"
  rightAway :: "RightAwayResult option"
  sttt :: "STTTResult option"
  complexity :: ComplexityMetrics

text \<open>
  The variables of an expression: the values of its \<open>VAR\<close> tokens other than \<open>0\<close> and
  \<open>1\<close>, collected in a \<open>Set\<close> and sorted as strings.
\<close>

definition extractVariablesFromExpression :: "(jstring \<Rightarrow> jstring) \<Rightarrow> jstring \<Rightarrow> jstring list" where
  "extractVariablesFromExpression up expr =
     sort (fold (\<lambda>t vars. if ttype t = T_VAR \<and> tvalue t \<notin> set [js ''0'', js ''1'']
                           then set_add (tvalue t) vars else vars)
             (tokenize up expr) [])"

definition undeclaredMessage :: "jstring list \<Rightarrow> jstring" where
  "undeclaredMessage undeclared =
     js ''Variable'' @ (if length undeclared > 1 then js ''s'' else []) @ js '' ''
       @ join (js '', '') undeclared @ js '' used but not declared.''"

definition varColumns :: "jstring list \<Rightarrow> TableColumn list" where
  "varColumns declaredVariables =
     map (\<lambda>v. \<lparr>colId = VarColumn v, colLabel = v, colExpression = v, isInput = True,
                isOutput = False, astId = None, dependencyIds = None\<rparr>) declaredVariables"

definition stepColumns :: "ASTNode \<Rightarrow> ASTNode list \<Rightarrow> AppSettings \<Rightarrow> TableColumn list" where
  "stepColumns root subExprNodes settings =
     map (\<lambda>n. \<lparr>colId = NodeColumn (nodeId n), colLabel = formatLabel (expression n) settings,
                colExpression = expression n, isInput = False, isOutput = False,
                astId = Some (nodeId n), dependencyIds = Some (getDirectDependencies n)\<rparr>)
       (filter (\<lambda>n. nodeType n \<noteq> N_VAR \<and> expression n \<noteq> expression root) subExprNodes)"

definition resultColumn :: "ASTNode \<Rightarrow> AppSettings \<Rightarrow> TableColumn" where
  "resultColumn root settings =
     \<lparr>colId = NodeColumn (nodeId root), colLabel = formatLabel (expression root) settings,
      colExpression = expression root, isInput = False, isOutput = True,
      astId = Some (nodeId root), dependencyIds = Some (getDirectDependencies root)\<rparr>"

definition finalColumns :: "ASTNode \<Rightarrow> jstring list \<Rightarrow> AppSettings \<Rightarrow> TableColumn list" where
  "finalColumns root declaredVariables settings =
     (if showSubExpressions settings
      then varColumns declaredVariables
             @ stepColumns root (extractSubExpressions root []) settings
             @ [resultColumn root settings]
      else varColumns declaredVariables @ [resultColumn root settings])"

text \<open>
  \<open>(valIndex >> k) & 1\<close>: the shift works on 32-bit integers and takes its count modulo
  32.
\<close>

definition bitAt :: "nat \<Rightarrow> nat \<Rightarrow> bool" where
  "bitAt valIndex k = (drop_bit (k mod 32) valIndex AND 1 = 1)"

definition rowContext :: "jstring list \<Rightarrow> nat \<Rightarrow> Ctx" where
  "rowContext declaredVariables valIndex =
     fold (\<lambda>(v, idx) ctx. ctx(v \<mapsto> bitAt valIndex (length declaredVariables - 1 - idx)))
       (zip declaredVariables [0..<length declaredVariables]) Map.empty"

text \<open>
  One column of one row.  An input column is a declared variable, for which the context
  has a value.
\<close>

definition evaluateColumn ::
    "ASTNode \<Rightarrow> ASTNode list \<Rightarrow> Ctx \<Rightarrow> TableColumn \<Rightarrow> bool jsobject \<Rightarrow> bool jsobject" where
  "evaluateColumn root subExprNodes ctx col rowValues =
     (if isInput col then
        (case ctx (colExpression col) of
           Some b \<Rightarrow> obj_set rowValues (colExpression col) b
         | None \<Rightarrow> rowValues)
      else
        (case findNode (astId col) subExprNodes of
           Some node \<Rightarrow> obj_set rowValues (colExpression col) (evaluateAST node ctx)
         | None \<Rightarrow>
             if isOutput col then obj_set rowValues (colExpression col) (evaluateAST root ctx)
             else rowValues))"

definition buildRow ::
    "ASTNode \<Rightarrow> jstring list \<Rightarrow> AppSettings \<Rightarrow> nat \<Rightarrow> TruthTableRow" where
  "buildRow root declaredVariables settings i =
     (let numRows = 2 ^ length declaredVariables;
          valIndex = (if rowOrder settings = descending then (numRows - 1) - i else i);
          ctx = rowContext declaredVariables valIndex;
          rowValues = fold (evaluateColumn root (extractSubExpressions root []) ctx)
                        (finalColumns root declaredVariables settings) []
      in \<lparr>rowId = i, rowIndex = i, vals = rowValues\<rparr>)"

text \<open>
  The flags \<open>tautology\<close> and \<open>contradiction\<close> over the rows, and the classification
  assigned from them: \<open>Contradiction\<close> is assigned last.
\<close>

definition classify :: "jstring \<Rightarrow> TruthTableRow list \<Rightarrow> Classification" where
  "classify resultExpr rs =
     (case fold (\<lambda>row (tautology, contradiction).
                   if truthy (obj_get (vals row) resultExpr) then (tautology, False)
                   else (False, contradiction)) rs (True, True) of
        (tautology, contradiction) \<Rightarrow>
          if contradiction then Contradiction
          else if tautology then Tautology
          else Contingency)"

definition analyzeLogic ::
    "(jstring \<Rightarrow> jstring) \<Rightarrow> jstring \<Rightarrow> jstring list \<Rightarrow> AppSettings \<Rightarrow> error + AnalysisResult" where
  "analyzeLogic up expr declaredVariables settings =
     (let root = parse (tokenize up expr);
          usedVariables = extractVariablesFromExpression up expr;
          undeclared = filter (\<lambda>v. v \<notin> set declaredVariables) usedVariables
      in if length undeclared > 0 then Inl (Error (undeclaredMessage undeclared))
         else
           (let numRows = 2 ^ length declaredVariables;
                rs = map (buildRow root declaredVariables settings) [0..<numRows];
                cls = classify (expression root) rs;
                forms = generateImplicationForms root
            in case generateKMap declaredVariables rs of
                 Inl e \<Rightarrow> Inl e
               | Inr kmap \<Rightarrow>
                   Inr \<lparr>ast = root,
                        columns = finalColumns root declaredVariables settings,
                        rows = rs,
                        variables = declaredVariables,
                        classification = cls,
                        mainConnective = nodeType root,
                        implicationForms =
                          map_option (\<lambda>f. \<lparr>original = formatLabel (original f) settings,
                                             converse = formatLabel (converse f) settings,
                                             inverse = formatLabel (inverse f) settings,
                                             contrapositive = formatLabel (contrapositive f) settings\<rparr>)
                            forms,
                        kMapData = kmap,
                        rightAway = analyzeRightAwayEngine root,
                        sttt = performSTTT rs (expression root) cls,
                        complexity =
                          (case calculateComplexity root of (ops, dp) \<Rightarrow>
                             \<lparr>operators = ops, complexityDepth = dp,
                              numVariables = length declaredVariables, totalRows = numRows\<rparr>)\<rparr>))"

definition reanalyzeFromRows ::
    "AnalysisResult \<Rightarrow> TruthTableRow list \<Rightarrow> AppSettings \<Rightarrow> error + AnalysisResult" where
  "reanalyzeFromRows current updatedRows settings =
     (let resultExpr = expression (ast current);
          cls = classify resultExpr updatedRows
      in case generateKMap (variables current) updatedRows of
           Inl e \<Rightarrow> Inl e
         | Inr kmap \<Rightarrow>
             Inr (current\<lparr>rows := updatedRows, classification := cls, kMapData := kmap,
                         sttt := performSTTT updatedRows resultExpr cls\<rparr>))"


section \<open>The call stack\<close>

text \<open>
  The methods of the parser call one another without a bound on the depth, and so do
  \<open>evaluateAST\<close>, \<open>extractSubExpressions\<close> and \<open>calculateComplexity\<close> on the tree.  The
  engine that runs them has a call stack of bounded size, and a call for which the stack has
  no room raises \<open>RangeError\<close>.  The functions with the suffix \<open>_stack\<close> are the same code
  with the number of nested calls of these functions for which the stack still has room: a
  function called when there is room for none raises, and otherwise it runs its body with
  room for one call less.  The short calls a function makes on its way (\<open>peek\<close>,
  \<open>consume\<close>, \<open>generateId\<close>, the callbacks of the array methods) are counted with the
  call that makes them, and a \<open>while\<close> loop runs in the frame of its method.  A frame,
  in what follows, is the room for one such call.
\<close>

function parseIFF_stack :: "nat \<Rightarrow> Parser \<Rightarrow> error + ASTNode \<times> Parser"
  and parseIFF_loop_stack :: "nat \<Rightarrow> ASTNode \<Rightarrow> Parser \<Rightarrow> error + ASTNode \<times> Parser"
  and parseImplies_stack :: "nat \<Rightarrow> Parser \<Rightarrow> error + ASTNode \<times> Parser"
  and parseImplies_loop_stack :: "nat \<Rightarrow> ASTNode \<Rightarrow> Parser \<Rightarrow> error + ASTNode \<times> Parser"
  and parseXor_stack :: "nat \<Rightarrow> Parser \<Rightarrow> error + ASTNode \<times> Parser"
  and parseXor_loop_stack :: "nat \<Rightarrow> ASTNode \<Rightarrow> Parser \<Rightarrow> error + ASTNode \<times> Parser"
  and parseOr_stack :: "nat \<Rightarrow> Parser \<Rightarrow> error + ASTNode \<times> Parser"
  and parseOr_loop_stack :: "nat \<Rightarrow> ASTNode \<Rightarrow> Parser \<Rightarrow> error + ASTNode \<times> Parser"
  and parseAnd_stack :: "nat \<Rightarrow> Parser \<Rightarrow> error + ASTNode \<times> Parser"
  and parseAnd_loop_stack :: "nat \<Rightarrow> ASTNode \<Rightarrow> Parser \<Rightarrow> error + ASTNode \<times> Parser"
  and parseNot_stack :: "nat \<Rightarrow> Parser \<Rightarrow> error + ASTNode \<times> Parser"
  and parseFactor_stack :: "nat \<Rightarrow> Parser \<Rightarrow> error + ASTNode \<times> Parser"
where
  "parseIFF_stack d p =
     (if d = 0 then Inl RangeError
      else case parseImplies_stack (d - 1) p of
             Inl e \<Rightarrow> Inl e
           | Inr (l, p1) \<Rightarrow> parseIFF_loop_stack (d - 1) l p1)"
| "parseIFF_loop_stack d l p =
     (if ttype (peek p) = T_IFF then
        (case parseImplies_stack d (snd (consume p)) of
           Inl e \<Rightarrow> Inl e
         | Inr (r, p2) \<Rightarrow>
             (case mkBinary C_IFF [c_iff] l r p2 of (l', p3) \<Rightarrow> parseIFF_loop_stack d l' p3))
      else Inr (l, p))"
| "parseImplies_stack d p =
     (if d = 0 then Inl RangeError
      else case parseXor_stack (d - 1) p of
             Inl e \<Rightarrow> Inl e
           | Inr (l, p1) \<Rightarrow> parseImplies_loop_stack (d - 1) l p1)"
| "parseImplies_loop_stack d l p =
     (if ttype (peek p) = T_IMPLIES then
        (case parseXor_stack d (snd (consume p)) of
           Inl e \<Rightarrow> Inl e
         | Inr (r, p2) \<Rightarrow>
             (case mkBinary C_IMPLIES [c_implies] l r p2 of
                (l', p3) \<Rightarrow> parseImplies_loop_stack d l' p3))
      else Inr (l, p))"
| "parseXor_stack d p =
     (if d = 0 then Inl RangeError
      else case parseOr_stack (d - 1) p of
             Inl e \<Rightarrow> Inl e
           | Inr (l, p1) \<Rightarrow> parseXor_loop_stack (d - 1) l p1)"
| "parseXor_loop_stack d l p =
     (if ttype (peek p) = T_XOR then
        (case parseOr_stack d (snd (consume p)) of
           Inl e \<Rightarrow> Inl e
         | Inr (r, p2) \<Rightarrow>
             (case mkBinary C_XOR [c_xor] l r p2 of (l', p3) \<Rightarrow> parseXor_loop_stack d l' p3))
      else Inr (l, p))"
| "parseOr_stack d p =
     (if d = 0 then Inl RangeError
      else case parseAnd_stack (d - 1) p of
             Inl e \<Rightarrow> Inl e
           | Inr (l, p1) \<Rightarrow> parseOr_loop_stack (d - 1) l p1)"
| "parseOr_loop_stack d l p =
     (if ttype (peek p) = T_OR then
        (case parseAnd_stack d (snd (consume p)) of
           Inl e \<Rightarrow> Inl e
         | Inr (r, p2) \<Rightarrow>
             (case mkBinary C_OR [c_or] l r p2 of (l', p3) \<Rightarrow> parseOr_loop_stack d l' p3))
      else Inr (l, p))"
| "parseAnd_stack d p =
     (if d = 0 then Inl RangeError
      else case parseNot_stack (d - 1) p of
             Inl e \<Rightarrow> Inl e
           | Inr (l, p1) \<Rightarrow> parseAnd_loop_stack (d - 1) l p1)"
| "parseAnd_loop_stack d l p =
     (if ttype (peek p) = T_AND then
        (case parseNot_stack d (snd (consume p)) of
           Inl e \<Rightarrow> Inl e
         | Inr (r, p2) \<Rightarrow>
             (case mkBinary C_AND [c_and] l r p2 of (l', p3) \<Rightarrow> parseAnd_loop_stack d l' p3))
      else Inr (l, p))"
| "parseNot_stack d p =
     (if d = 0 then Inl RangeError
      else if ttype (peek p) = T_NOT then
        (case consume p of (token, p1) \<Rightarrow>
           (case parseNot_stack (d - 1) p1 of
              Inl e \<Rightarrow> Inl e
            | Inr (x, p2) \<Rightarrow>
                (case generateId p2 of (i, p3) \<Rightarrow>
                   Inr (NotNode i x (tvalue token @ expression x) (depth x + 1), p3))))
      else parseFactor_stack (d - 1) p)"
| "parseFactor_stack d p =
     (if d = 0 then Inl RangeError
      else let token = peek p in
      if ttype token \<in> {T_LPAREN, T_LBRACKET, T_LBRACE} then
        (let openType = ttype token; openChar = tvalue token in
         case parseIFF_stack (d - 1) (snd (consume p)) of
           Inl e \<Rightarrow> Inl e
         | Inr (node, p2) \<Rightarrow>
           (let closeToken = peek p2;
                expectedCloseType = (if openType = T_LPAREN then T_RPAREN
                                     else if openType = T_LBRACKET then T_RBRACKET else T_RBRACE);
                expectedCloseChar = (if openType = T_LPAREN then js '')''
                                     else if openType = T_LBRACKET then js '']'' else js ''}'')
            in if ttype closeToken = expectedCloseType then
                 Inr (setExpression node (openChar @ expression node @ expectedCloseChar),
                      snd (consume p2))
               else Inr (node, p2)))
      else if ttype token = T_VAR then
        (case generateId (snd (consume p)) of (i, p2) \<Rightarrow>
           Inr (VarNode i (tvalue token) (tvalue token) 0, p2))
      else
        (case generateId (snd (consume p)) of (i, p2) \<Rightarrow>
           Inr (VarNode i (js ''?'') (js ''?'') 0, p2)))"
  by pat_completeness auto

abbreviation parse_stack_dom where
  "parse_stack_dom \<equiv> parseIFF_stack_parseIFF_loop_stack_parseImplies_stack_parseImplies_loop_stack_parseXor_stack_parseXor_loop_stack_parseOr_stack_parseOr_loop_stack_parseAnd_stack_parseAnd_loop_stack_parseNot_stack_parseFactor_stack_dom"

text \<open>
  A result with a budget of frames agrees with the result without one: it is that result,
  or the stack was exhausted.  On the domain of the recursion this holds of every method,
  which gives the termination proof what it needs of a nested call.
\<close>

lemmas parse_advances = parse_advances_dom [OF parse_terminates]

definition agrees :: "error + 'a \<Rightarrow> 'a \<Rightarrow> bool" where
  "agrees r v = (r = Inl RangeError \<or> r = Inr v)"

lemma agrees_overflow [simp]: "agrees (Inl RangeError) v"
  by (simp add: agrees_def)

lemma agrees_value [simp]: "agrees (Inr v) w = (v = w)"
  by (auto simp: agrees_def)

lemma chain_agrees:
  assumes "agrees rs sub"
    and "\<And>l p1. rs = Inr (l, p1) \<Longrightarrow> agrees (loops l p1) (loop l p1)"
  shows "agrees (case rs of Inl e \<Rightarrow> Inl e | Inr (l, p1) \<Rightarrow> loops l p1)
                (case sub of (l, p1) \<Rightarrow> loop l p1)"
  using assms by (cases rs; cases sub) (auto simp: agrees_def)

lemma loop_agrees:
  assumes "agrees rs sub"
    and "\<And>r p2 l' p3. rs = Inr (r, p2) \<Longrightarrow> (l', p3) = mk r p2 \<Longrightarrow>
           agrees (loops l' p3) (loop l' p3)"
  shows "agrees (case rs of Inl e \<Rightarrow> Inl e
                 | Inr (r, p2) \<Rightarrow> (case mk r p2 of (l', p3) \<Rightarrow> loops l' p3))
                (case sub of (r, p2) \<Rightarrow> (case mk r p2 of (l', p3) \<Rightarrow> loop l' p3))"
proof (cases rs)
  case (Inl e)
  with assms(1) show ?thesis by (simp add: agrees_def)
next
  case (Inr b)
  obtain r p2 where b: "b = (r, p2)" by (cases b)
  obtain l' p3 where m: "mk r p2 = (l', p3)" by (cases "mk r p2")
  from assms(1) Inr b have s: "sub = (r, p2)" by simp
  from assms(2) [of r p2 l' p3] Inr b m show ?thesis using s by simp
qed

lemma parse_stack_agrees_dom:
  "parse_stack_dom (Inl (Inl (Inl (d, p)))) \<Longrightarrow> agrees (parseIFF_stack d p) (parseIFF p)"
  "parse_stack_dom (Inl (Inl (Inr (Inl (d, l, p))))) \<Longrightarrow>
     agrees (parseIFF_loop_stack d l p) (parseIFF_loop l p)"
  "parse_stack_dom (Inl (Inl (Inr (Inr (d, p))))) \<Longrightarrow>
     agrees (parseImplies_stack d p) (parseImplies p)"
  "parse_stack_dom (Inl (Inr (Inl (d, l, p)))) \<Longrightarrow>
     agrees (parseImplies_loop_stack d l p) (parseImplies_loop l p)"
  "parse_stack_dom (Inl (Inr (Inr (Inl (d, p))))) \<Longrightarrow> agrees (parseXor_stack d p) (parseXor p)"
  "parse_stack_dom (Inl (Inr (Inr (Inr (d, l, p))))) \<Longrightarrow>
     agrees (parseXor_loop_stack d l p) (parseXor_loop l p)"
  "parse_stack_dom (Inr (Inl (Inl (d, p)))) \<Longrightarrow> agrees (parseOr_stack d p) (parseOr p)"
  "parse_stack_dom (Inr (Inl (Inr (Inl (d, l, p))))) \<Longrightarrow>
     agrees (parseOr_loop_stack d l p) (parseOr_loop l p)"
  "parse_stack_dom (Inr (Inl (Inr (Inr (d, p))))) \<Longrightarrow> agrees (parseAnd_stack d p) (parseAnd p)"
  "parse_stack_dom (Inr (Inr (Inl (d, l, p)))) \<Longrightarrow>
     agrees (parseAnd_loop_stack d l p) (parseAnd_loop l p)"
  "parse_stack_dom (Inr (Inr (Inr (Inl (d, p))))) \<Longrightarrow> agrees (parseNot_stack d p) (parseNot p)"
  "parse_stack_dom (Inr (Inr (Inr (Inr (d, p))))) \<Longrightarrow>
     agrees (parseFactor_stack d p) (parseFactor p)"
proof (induct rule: parseIFF_stack_parseIFF_loop_stack_parseImplies_stack_parseImplies_loop_stack_parseXor_stack_parseXor_loop_stack_parseOr_stack_parseOr_loop_stack_parseAnd_stack_parseAnd_loop_stack_parseNot_stack_parseFactor_stack.pinduct)
  case (1 d p)
  show ?case
  proof (cases "d = 0")
    case True
    with 1(1) show ?thesis by (simp add: parseIFF_stack.psimps)
  next
    case False
    have "agrees (case parseImplies_stack (d - 1) p of Inl e \<Rightarrow> Inl e
                  | Inr (l, p1) \<Rightarrow> parseIFF_loop_stack (d - 1) l p1)
                 (case parseImplies p of (l, p1) \<Rightarrow> parseIFF_loop l p1)"
      using 1(2) [OF False] 1(3) [OF False] by (intro chain_agrees) auto
    then show ?thesis using False 1(1) by (simp add: parseIFF_stack.psimps parseIFF.simps)
  qed
next
  case (2 d l p)
  show ?case
  proof (cases "ttype (peek p) = T_IFF")
    case False
    with 2(1) show ?thesis by (simp add: parseIFF_loop_stack.psimps parseIFF_loop.simps [of l p])
  next
    case True
    have "agrees (case parseImplies_stack d (snd (consume p)) of Inl e \<Rightarrow> Inl e
                  | Inr (r, p2) \<Rightarrow> (case mkBinary C_IFF [c_iff] l r p2 of
                      (l', p3) \<Rightarrow> parseIFF_loop_stack d l' p3))
                 (case parseImplies (snd (consume p)) of (r, p2) \<Rightarrow>
                    (case mkBinary C_IFF [c_iff] l r p2 of (l', p3) \<Rightarrow> parseIFF_loop l' p3))"
      using 2(2) [OF True] 2(3) [OF True] by (intro loop_agrees) auto
    then show ?thesis using True 2(1)
      by (simp add: parseIFF_loop_stack.psimps parseIFF_loop.simps [of l p])
  qed
next
  case (3 d p)
  show ?case
  proof (cases "d = 0")
    case True
    with 3(1) show ?thesis by (simp add: parseImplies_stack.psimps)
  next
    case False
    have "agrees (case parseXor_stack (d - 1) p of Inl e \<Rightarrow> Inl e
                  | Inr (l, p1) \<Rightarrow> parseImplies_loop_stack (d - 1) l p1)
                 (case parseXor p of (l, p1) \<Rightarrow> parseImplies_loop l p1)"
      using 3(2) [OF False] 3(3) [OF False] by (intro chain_agrees) auto
    then show ?thesis using False 3(1) by (simp add: parseImplies_stack.psimps parseImplies.simps)
  qed
next
  case (4 d l p)
  show ?case
  proof (cases "ttype (peek p) = T_IMPLIES")
    case False
    with 4(1) show ?thesis by (simp add: parseImplies_loop_stack.psimps parseImplies_loop.simps [of l p])
  next
    case True
    have "agrees (case parseXor_stack d (snd (consume p)) of Inl e \<Rightarrow> Inl e
                  | Inr (r, p2) \<Rightarrow> (case mkBinary C_IMPLIES [c_implies] l r p2 of
                      (l', p3) \<Rightarrow> parseImplies_loop_stack d l' p3))
                 (case parseXor (snd (consume p)) of (r, p2) \<Rightarrow>
                    (case mkBinary C_IMPLIES [c_implies] l r p2 of
                       (l', p3) \<Rightarrow> parseImplies_loop l' p3))"
      using 4(2) [OF True] 4(3) [OF True] by (intro loop_agrees) auto
    then show ?thesis using True 4(1)
      by (simp add: parseImplies_loop_stack.psimps parseImplies_loop.simps [of l p])
  qed
next
  case (5 d p)
  show ?case
  proof (cases "d = 0")
    case True
    with 5(1) show ?thesis by (simp add: parseXor_stack.psimps)
  next
    case False
    have "agrees (case parseOr_stack (d - 1) p of Inl e \<Rightarrow> Inl e
                  | Inr (l, p1) \<Rightarrow> parseXor_loop_stack (d - 1) l p1)
                 (case parseOr p of (l, p1) \<Rightarrow> parseXor_loop l p1)"
      using 5(2) [OF False] 5(3) [OF False] by (intro chain_agrees) auto
    then show ?thesis using False 5(1) by (simp add: parseXor_stack.psimps parseXor.simps)
  qed
next
  case (6 d l p)
  show ?case
  proof (cases "ttype (peek p) = T_XOR")
    case False
    with 6(1) show ?thesis by (simp add: parseXor_loop_stack.psimps parseXor_loop.simps [of l p])
  next
    case True
    have "agrees (case parseOr_stack d (snd (consume p)) of Inl e \<Rightarrow> Inl e
                  | Inr (r, p2) \<Rightarrow> (case mkBinary C_XOR [c_xor] l r p2 of
                      (l', p3) \<Rightarrow> parseXor_loop_stack d l' p3))
                 (case parseOr (snd (consume p)) of (r, p2) \<Rightarrow>
                    (case mkBinary C_XOR [c_xor] l r p2 of (l', p3) \<Rightarrow> parseXor_loop l' p3))"
      using 6(2) [OF True] 6(3) [OF True] by (intro loop_agrees) auto
    then show ?thesis using True 6(1)
      by (simp add: parseXor_loop_stack.psimps parseXor_loop.simps [of l p])
  qed
next
  case (7 d p)
  show ?case
  proof (cases "d = 0")
    case True
    with 7(1) show ?thesis by (simp add: parseOr_stack.psimps)
  next
    case False
    have "agrees (case parseAnd_stack (d - 1) p of Inl e \<Rightarrow> Inl e
                  | Inr (l, p1) \<Rightarrow> parseOr_loop_stack (d - 1) l p1)
                 (case parseAnd p of (l, p1) \<Rightarrow> parseOr_loop l p1)"
      using 7(2) [OF False] 7(3) [OF False] by (intro chain_agrees) auto
    then show ?thesis using False 7(1) by (simp add: parseOr_stack.psimps parseOr.simps)
  qed
next
  case (8 d l p)
  show ?case
  proof (cases "ttype (peek p) = T_OR")
    case False
    with 8(1) show ?thesis by (simp add: parseOr_loop_stack.psimps parseOr_loop.simps [of l p])
  next
    case True
    have "agrees (case parseAnd_stack d (snd (consume p)) of Inl e \<Rightarrow> Inl e
                  | Inr (r, p2) \<Rightarrow> (case mkBinary C_OR [c_or] l r p2 of
                      (l', p3) \<Rightarrow> parseOr_loop_stack d l' p3))
                 (case parseAnd (snd (consume p)) of (r, p2) \<Rightarrow>
                    (case mkBinary C_OR [c_or] l r p2 of (l', p3) \<Rightarrow> parseOr_loop l' p3))"
      using 8(2) [OF True] 8(3) [OF True] by (intro loop_agrees) auto
    then show ?thesis using True 8(1)
      by (simp add: parseOr_loop_stack.psimps parseOr_loop.simps [of l p])
  qed
next
  case (9 d p)
  show ?case
  proof (cases "d = 0")
    case True
    with 9(1) show ?thesis by (simp add: parseAnd_stack.psimps)
  next
    case False
    have "agrees (case parseNot_stack (d - 1) p of Inl e \<Rightarrow> Inl e
                  | Inr (l, p1) \<Rightarrow> parseAnd_loop_stack (d - 1) l p1)
                 (case parseNot p of (l, p1) \<Rightarrow> parseAnd_loop l p1)"
      using 9(2) [OF False] 9(3) [OF False] by (intro chain_agrees) auto
    then show ?thesis using False 9(1) by (simp add: parseAnd_stack.psimps parseAnd.simps)
  qed
next
  case (10 d l p)
  show ?case
  proof (cases "ttype (peek p) = T_AND")
    case False
    with 10(1) show ?thesis by (simp add: parseAnd_loop_stack.psimps parseAnd_loop.simps [of l p])
  next
    case True
    have "agrees (case parseNot_stack d (snd (consume p)) of Inl e \<Rightarrow> Inl e
                  | Inr (r, p2) \<Rightarrow> (case mkBinary C_AND [c_and] l r p2 of
                      (l', p3) \<Rightarrow> parseAnd_loop_stack d l' p3))
                 (case parseNot (snd (consume p)) of (r, p2) \<Rightarrow>
                    (case mkBinary C_AND [c_and] l r p2 of (l', p3) \<Rightarrow> parseAnd_loop l' p3))"
      using 10(2) [OF True] 10(3) [OF True] by (intro loop_agrees) auto
    then show ?thesis using True 10(1)
      by (simp add: parseAnd_loop_stack.psimps parseAnd_loop.simps [of l p])
  qed
next
  case (11 d p)
  show ?case
  proof (cases "d = 0")
    case True
    with 11(1) show ?thesis by (simp add: parseNot_stack.psimps)
  next
    case False
    show ?thesis
    proof (cases "ttype (peek p) = T_NOT")
      case True
      obtain token p1 where c: "consume p = (token, p1)" by (cases "consume p")
      from 11(2) [OF False True c [symmetric]]
      have "agrees (parseNot_stack (d - 1) p1) (parseNot p1)" .
      then show ?thesis using False True c 11(1)
        by (auto simp: parseNot_stack.psimps parseNot.simps [of p] agrees_def split: prod.splits)
    next
      case nn: False
      from 11(3) [OF False nn] show ?thesis using False nn 11(1)
        by (simp add: parseNot_stack.psimps parseNot.simps [of p])
    qed
  qed
next
  case (12 d p)
  show ?case
  proof (cases "d = 0")
    case True
    with 12(1) show ?thesis by (simp add: parseFactor_stack.psimps)
  next
    case False
    show ?thesis
    proof (cases "ttype (peek p) \<in> {T_LPAREN, T_LBRACKET, T_LBRACE}")
      case True
      from 12(2) [OF False refl True refl refl]
      have "agrees (parseIFF_stack (d - 1) (snd (consume p))) (parseIFF (snd (consume p)))" .
      then show ?thesis using False True 12(1)
        by (auto simp: parseFactor_stack.psimps parseFactor.simps [of p] agrees_def Let_def
            split: prod.splits)
    next
      case nb: False
      then show ?thesis using False 12(1)
        by (auto simp: parseFactor_stack.psimps parseFactor.simps [of p] Let_def
            split: prod.splits)
    qed
  qed
qed


lemma term_stack_loop:
  assumes "ttype (peek p) = t" "t \<noteq> T_EOF"
    and "(a, b) = sub" "advances (snd (consume p)) (snd sub)"
  shows "(case mkBinary c s l a b of (l, q) \<Rightarrow> (d, remaining q), d, remaining p)
           \<in> less_than <*lex*> less_than"
proof -
  have "remaining (snd (consume p)) < remaining p"
    using assms(1,2) by (intro remaining_consume) simp
  moreover have "remaining b \<le> remaining (snd (consume p))"
    using assms(3,4) by (auto dest: remaining_advances)
  moreover have "remaining (snd (mkBinary c s l a b)) = remaining b"
    by (rule remaining_mkBinary)
  ultimately show ?thesis by (cases "mkBinary c s l a b") simp
qed

lemma parse_stack_terminates: "parse_stack_dom x"
proof -
  have "All parse_stack_dom"
    apply (relation "inv_image (less_than <*lex*> less_than) (\<lambda>x. case x of
        Inl (Inl (Inl (d, p))) \<Rightarrow> (d, remaining p)
      | Inl (Inl (Inr (Inl (d, l, p)))) \<Rightarrow> (d, remaining p)
      | Inl (Inl (Inr (Inr (d, p)))) \<Rightarrow> (d, remaining p)
      | Inl (Inr (Inl (d, l, p))) \<Rightarrow> (d, remaining p)
      | Inl (Inr (Inr (Inl (d, p)))) \<Rightarrow> (d, remaining p)
      | Inl (Inr (Inr (Inr (d, l, p)))) \<Rightarrow> (d, remaining p)
      | Inr (Inl (Inl (d, p))) \<Rightarrow> (d, remaining p)
      | Inr (Inl (Inr (Inl (d, l, p)))) \<Rightarrow> (d, remaining p)
      | Inr (Inl (Inr (Inr (d, p)))) \<Rightarrow> (d, remaining p)
      | Inr (Inr (Inl (d, l, p))) \<Rightarrow> (d, remaining p)
      | Inr (Inr (Inr (Inl (d, p)))) \<Rightarrow> (d, remaining p)
      | Inr (Inr (Inr (Inr (d, p)))) \<Rightarrow> (d, remaining p))")
    apply (simp_all add: remaining_consume)
    apply (auto dest!: parse_stack_agrees_dom)
    apply (rule term_stack_loop, assumption, simp, assumption, rule parse_advances)+
    done
  then show ?thesis ..
qed

termination parseIFF_stack
  using parse_stack_terminates by blast


declare parseIFF_stack.simps [simp del] parseIFF_loop_stack.simps [simp del]
  parseImplies_stack.simps [simp del] parseImplies_loop_stack.simps [simp del]
  parseXor_stack.simps [simp del] parseXor_loop_stack.simps [simp del]
  parseOr_stack.simps [simp del] parseOr_loop_stack.simps [simp del]
  parseAnd_stack.simps [simp del] parseAnd_loop_stack.simps [simp del]
  parseNot_stack.simps [simp del] parseFactor_stack.simps [simp del]

lemmas parse_methods_agree = parse_stack_agrees_dom [OF parse_stack_terminates]

text \<open>
  \<open>new Parser(tokens).parse()\<close>, the evaluator, \<open>evaluateRawExpression\<close>, which catches
  every error and returns \<open>false\<close>, and the two other functions that walk the tree.
\<close>

definition parse_stack :: "nat \<Rightarrow> Token list \<Rightarrow> error + ASTNode" where
  "parse_stack stack ts =
     (if stack = 0 then Inl RangeError
      else case parseIFF_stack (stack - 1) (newParser ts) of
             Inl e \<Rightarrow> Inl e
           | Inr (node, p) \<Rightarrow> Inr node)"

fun evaluateAST_stack :: "nat \<Rightarrow> ASTNode \<Rightarrow> Ctx \<Rightarrow> error + bool" where
  "evaluateAST_stack stack (VarNode i v e d) ctx =
     (if stack = 0 then Inl RangeError
      else Inr (if v = js ''1'' then True
                else if v = js ''0'' then False
                else (case ctx v of Some b \<Rightarrow> b | None \<Rightarrow> False)))"
| "evaluateAST_stack stack (NotNode i x e d) ctx =
     (if stack = 0 then Inl RangeError
      else case evaluateAST_stack (stack - 1) x ctx of
             Inl err \<Rightarrow> Inl err
           | Inr b \<Rightarrow> Inr (\<not> b))"
| "evaluateAST_stack stack (BinNode i t l r e d) ctx =
     (if stack = 0 then Inl RangeError
      else case evaluateAST_stack (stack - 1) l ctx of
             Inl err \<Rightarrow> Inl err
           | Inr lv \<Rightarrow>
               (case evaluateAST_stack (stack - 1) r ctx of
                  Inl err \<Rightarrow> Inl err
                | Inr rv \<Rightarrow>
                    Inr (case t of
                           C_AND \<Rightarrow> lv \<and> rv
                         | C_OR \<Rightarrow> lv \<or> rv
                         | C_XOR \<Rightarrow> lv \<noteq> rv
                         | C_IMPLIES \<Rightarrow> \<not> lv \<or> rv
                         | C_IFF \<Rightarrow> lv = rv)))"

definition evaluateRawExpression_stack ::
    "nat \<Rightarrow> (jstring \<Rightarrow> jstring) \<Rightarrow> jstring \<Rightarrow> Ctx \<Rightarrow> bool" where
  "evaluateRawExpression_stack stack up expr ctx =
     (case parse_stack stack (tokenize up expr) of
        Inl e \<Rightarrow> False
      | Inr root \<Rightarrow> (case evaluateAST_stack stack root ctx of Inl e \<Rightarrow> False | Inr b \<Rightarrow> b))"

fun extractSubExpressions_stack ::
    "nat \<Rightarrow> ASTNode \<Rightarrow> ASTNode list \<Rightarrow> error + ASTNode list" where
  "extractSubExpressions_stack stack (VarNode i v e d) list =
     (if stack = 0 then Inl RangeError else Inr (addSubExpression (VarNode i v e d) list))"
| "extractSubExpressions_stack stack (NotNode i x e d) list =
     (if stack = 0 then Inl RangeError
      else case extractSubExpressions_stack (stack - 1) x list of
             Inl err \<Rightarrow> Inl err
           | Inr list1 \<Rightarrow> Inr (addSubExpression (NotNode i x e d) list1))"
| "extractSubExpressions_stack stack (BinNode i t l r e d) list =
     (if stack = 0 then Inl RangeError
      else case extractSubExpressions_stack (stack - 1) l list of
             Inl err \<Rightarrow> Inl err
           | Inr list1 \<Rightarrow>
               (case extractSubExpressions_stack (stack - 1) r list1 of
                  Inl err \<Rightarrow> Inl err
                | Inr list2 \<Rightarrow> Inr (addSubExpression (BinNode i t l r e d) list2)))"

fun calculateComplexity_stack :: "nat \<Rightarrow> ASTNode \<Rightarrow> error + nat \<times> nat" where
  "calculateComplexity_stack stack (VarNode i v e d) =
     (if stack = 0 then Inl RangeError else Inr (0, 1))"
| "calculateComplexity_stack stack (NotNode i x e d) =
     (if stack = 0 then Inl RangeError
      else case calculateComplexity_stack (stack - 1) x of
             Inl err \<Rightarrow> Inl err
           | Inr (ops, dp) \<Rightarrow> Inr (1 + ops, dp + 1))"
| "calculateComplexity_stack stack (BinNode i t l r e d) =
     (if stack = 0 then Inl RangeError
      else case calculateComplexity_stack (stack - 1) l of
             Inl err \<Rightarrow> Inl err
           | Inr (lops, ldp) \<Rightarrow>
               (case calculateComplexity_stack (stack - 1) r of
                  Inl err \<Rightarrow> Inl err
                | Inr (rops, rdp) \<Rightarrow> Inr (1 + (lops + rops), max ldp rdp + 1)))"

text \<open>
  \<open>analyzeLogic\<close> with the frames that are left when it is called, which is what each
  function it calls starts with: the parser runs first and unguarded, then the undeclared
  variables are checked, then the tree is walked for its sub-expressions, for every column
  of every row, and for its complexity.  A \<open>RangeError\<close> passes through \<open>analyzeLogic\<close>
  to its caller like the error for undeclared variables.
\<close>

definition evaluateColumn_stack ::
    "nat \<Rightarrow> ASTNode \<Rightarrow> ASTNode list \<Rightarrow> Ctx \<Rightarrow> TableColumn \<Rightarrow> bool jsobject
     \<Rightarrow> error + bool jsobject" where
  "evaluateColumn_stack stack root subExprNodes ctx col rowValues =
     (if isInput col then
        Inr (case ctx (colExpression col) of
               Some b \<Rightarrow> obj_set rowValues (colExpression col) b
             | None \<Rightarrow> rowValues)
      else
        (case findNode (astId col) subExprNodes of
           Some node \<Rightarrow>
             (case evaluateAST_stack stack node ctx of
                Inl e \<Rightarrow> Inl e
              | Inr b \<Rightarrow> Inr (obj_set rowValues (colExpression col) b))
         | None \<Rightarrow>
             if isOutput col then
               (case evaluateAST_stack stack root ctx of
                  Inl e \<Rightarrow> Inl e
                | Inr b \<Rightarrow> Inr (obj_set rowValues (colExpression col) b))
             else Inr rowValues))"

definition buildRow_stack ::
    "nat \<Rightarrow> ASTNode \<Rightarrow> ASTNode list \<Rightarrow> TableColumn list \<Rightarrow> jstring list \<Rightarrow> AppSettings \<Rightarrow> nat
     \<Rightarrow> error + TruthTableRow" where
  "buildRow_stack stack root subExprNodes cols declaredVariables settings i =
     (let numRows = 2 ^ length declaredVariables;
          valIndex = (if rowOrder settings = descending then (numRows - 1) - i else i);
          ctx = rowContext declaredVariables valIndex
      in case foldE (evaluateColumn_stack stack root subExprNodes ctx) cols [] of
           Inl e \<Rightarrow> Inl e
         | Inr rowValues \<Rightarrow> Inr \<lparr>rowId = i, rowIndex = i, vals = rowValues\<rparr>)"

definition analyzeLogic_stack ::
    "nat \<Rightarrow> (jstring \<Rightarrow> jstring) \<Rightarrow> jstring \<Rightarrow> jstring list \<Rightarrow> AppSettings
     \<Rightarrow> error + AnalysisResult" where
  "analyzeLogic_stack stack up expr declaredVariables settings =
     (case parse_stack stack (tokenize up expr) of
        Inl e \<Rightarrow> Inl e
      | Inr root \<Rightarrow>
          (let usedVariables = extractVariablesFromExpression up expr;
               undeclared = filter (\<lambda>v. v \<notin> set declaredVariables) usedVariables
           in if length undeclared > 0 then Inl (Error (undeclaredMessage undeclared))
              else
                (case extractSubExpressions_stack stack root [] of
                   Inl e \<Rightarrow> Inl e
                 | Inr subExprNodes \<Rightarrow>
                     (let cols =
                            (if showSubExpressions settings
                             then varColumns declaredVariables
                                    @ stepColumns root subExprNodes settings
                                    @ [resultColumn root settings]
                             else varColumns declaredVariables @ [resultColumn root settings]);
                          numRows = 2 ^ length declaredVariables
                      in case foldE (\<lambda>i rs.
                                case buildRow_stack stack root subExprNodes cols
                                       declaredVariables settings i of
                                  Inl e \<Rightarrow> Inl e
                                | Inr row \<Rightarrow> Inr (rs @ [row]))
                              [0..<numRows] [] of
                           Inl e \<Rightarrow> Inl e
                         | Inr rs \<Rightarrow>
                             (let cls = classify (expression root) rs;
                                  forms = generateImplicationForms root
                              in case generateKMap declaredVariables rs of
                                   Inl e \<Rightarrow> Inl e
                                 | Inr kmap \<Rightarrow>
                                     (case calculateComplexity_stack stack root of
                                        Inl e \<Rightarrow> Inl e
                                      | Inr (ops, dp) \<Rightarrow>
                                          Inr \<lparr>ast = root,
                                               columns = cols,
                                               rows = rs,
                                               variables = declaredVariables,
                                               classification = cls,
                                               mainConnective = nodeType root,
                                               implicationForms =
                                                 map_option
                                                   (\<lambda>f. \<lparr>original = formatLabel (original f) settings,
                                                         converse = formatLabel (converse f) settings,
                                                         inverse = formatLabel (inverse f) settings,
                                                         contrapositive =
                                                           formatLabel (contrapositive f) settings\<rparr>)
                                                   forms,
                                               kMapData = kmap,
                                               rightAway = analyzeRightAwayEngine root,
                                               sttt = performSTTT rs (expression root) cls,
                                               complexity =
                                                 \<lparr>operators = ops, complexityDepth = dp,
                                                  numVariables = length declaredVariables,
                                                  totalRows = numRows\<rparr>\<rparr>))))))"

section \<open>Predicates on trees\<close>

text \<open>
  What holds of a tree the parser returns: the identifiers of its nodes lie below the
  parser's counter, the root has the largest identifier, the value of a variable node is one
  character, and every other node, and every node wrapped in brackets, has an expression
  string of at least two characters.
\<close>

fun idsBelow :: "nat \<Rightarrow> ASTNode \<Rightarrow> bool" where
  "idsBelow c (VarNode i v e d) = (i < c)"
| "idsBelow c (NotNode i x e d) = (i < c \<and> idsBelow c x)"
| "idsBelow c (BinNode i t l r e d) = (i < c \<and> idsBelow c l \<and> idsBelow c r)"

fun rootTop :: "ASTNode \<Rightarrow> bool" where
  "rootTop (VarNode i v e d) = True"
| "rootTop (NotNode i x e d) = idsBelow i x"
| "rootTop (BinNode i t l r e d) = (idsBelow i l \<and> idsBelow i r)"

fun wfShape :: "ASTNode \<Rightarrow> bool" where
  "wfShape (VarNode i v e d) = (length v = 1 \<and> (e = v \<or> 2 \<le> length e))"
| "wfShape (NotNode i x e d) = (2 \<le> length e \<and> wfShape x)"
| "wfShape (BinNode i t l r e d) = (2 \<le> length e \<and> wfShape l \<and> wfShape r)"

definition nodeOk :: "nat \<Rightarrow> ASTNode \<Rightarrow> bool" where
  "nodeOk c node = (idsBelow c node \<and> rootTop node \<and> wfShape node)"

definition tokensOk :: "Token list \<Rightarrow> bool" where
  "tokensOk ts = (\<forall>t \<in> set ts. ttype t \<noteq> T_EOF \<longrightarrow> length (tvalue t) = 1)"

definition parsesOk :: "Parser \<Rightarrow> ASTNode \<times> Parser \<Rightarrow> bool" where
  "parsesOk p res =
     (tokens (snd res) = tokens p \<and> nodeIdCounter p \<le> nodeIdCounter (snd res)
      \<and> nodeOk (nodeIdCounter (snd res)) (fst res))"

fun allNodes :: "ASTNode \<Rightarrow> ASTNode list" where
  "allNodes (VarNode i v e d) = [VarNode i v e d]"
| "allNodes (NotNode i x e d) = NotNode i x e d # allNodes x"
| "allNodes (BinNode i t l r e d) = BinNode i t l r e d # allNodes l @ allNodes r"

fun varValues :: "ASTNode \<Rightarrow> jstring set" where
  "varValues (VarNode i v e d) = {v}"
| "varValues (NotNode i x e d) = varValues x"
| "varValues (BinNode i t l r e d) = varValues l \<union> varValues r"

definition lookup :: "Ctx \<Rightarrow> jstring \<Rightarrow> bool" where
  "lookup ctx v = (case ctx v of Some b \<Rightarrow> b | None \<Rightarrow> False)"

section \<open>Predicates on the call stack\<close>

text \<open>
  The height of a tree, and the tokens that make the parser or the tree deeper: an open
  bracket and a negation take the parser into a nested call, and every operator adds a node
  above its operands.
\<close>

fun height :: "ASTNode \<Rightarrow> nat" where
  "height (VarNode i v e d) = 1"
| "height (NotNode i x e d) = height x + 1"
| "height (BinNode i t l r e d) = max (height l) (height r) + 1"

definition deepens :: "Token \<Rightarrow> bool" where
  "deepens t = (ttype t \<in> {T_LPAREN, T_LBRACKET, T_LBRACE, T_NOT})"

definition nestingTokens :: "Token list \<Rightarrow> nat" where
  "nestingTokens ts = length (filter deepens ts)"

definition nestingFrom :: "Parser \<Rightarrow> nat" where
  "nestingFrom p = nestingTokens (drop (pos p) (tokens p))"

definition isOperator :: "Token \<Rightarrow> bool" where
  "isOperator t = (ttype t \<in> {T_NOT, T_AND, T_OR, T_XOR, T_IMPLIES, T_IFF})"

definition operatorTokens :: "Token list \<Rightarrow> nat" where
  "operatorTokens ts = length (filter isOperator ts)"

definition operatorsFrom :: "Parser \<Rightarrow> nat" where
  "operatorsFrom p = operatorTokens (drop (pos p) (tokens p))"

text \<open>An expression nested deeper than a stack of 10000 frames holds.\<close>

definition deeplyNested :: jstring where
  "deeplyNested = js (replicate 1500 CHR ''('' @ ''0'' @ replicate 1500 CHR '')'')"

section \<open>Predicates on analysis results\<close>

text \<open>
  The notions the statements about \<open>analyzeLogic\<close> are written in: the root value of a
  row (the truth of the value under the root's expression string), the variables of an
  expression that are not declared, a classification that agrees with the rows, and the
  settings and results used as examples.
\<close>

definition rootValue :: "jstring \<Rightarrow> TruthTableRow \<Rightarrow> bool" where
  "rootValue resultExpr row = truthy (obj_get (vals row) resultExpr)"

definition undeclaredVariables :: "(jstring \<Rightarrow> jstring) \<Rightarrow> jstring \<Rightarrow> jstring list \<Rightarrow> jstring list" where
  "undeclaredVariables up expr declaredVariables =
     filter (\<lambda>v. v \<notin> set declaredVariables) (extractVariablesFromExpression up expr)"

definition offending :: "(jstring \<Rightarrow> jstring) \<Rightarrow> jstring \<Rightarrow> jstring list \<Rightarrow> jstring set" where
  "offending up expr declaredVariables =
     {tvalue t |t. t \<in> set (tokenize up expr) \<and> ttype t = T_VAR
                   \<and> tvalue t \<notin> {js ''0'', js ''1''} \<and> tvalue t \<notin> set declaredVariables}"

definition consistentClassification ::
    "jstring \<Rightarrow> TruthTableRow list \<Rightarrow> Classification \<Rightarrow> bool" where
  "consistentClassification resultExpr rs cls =
     ((cls = Tautology \<longleftrightarrow> (\<forall>row \<in> set rs. rootValue resultExpr row))
      \<and> (cls = Contradiction \<longleftrightarrow> (\<forall>row \<in> set rs. \<not> rootValue resultExpr row))
      \<and> (cls = Contingency \<longleftrightarrow> \<not> (\<forall>row \<in> set rs. rootValue resultExpr row)
                               \<and> \<not> (\<forall>row \<in> set rs. \<not> rootValue resultExpr row)))"

definition DEFAULT_SETTINGS :: AppSettings where
  "DEFAULT_SETTINGS = \<lparr>negationHandling = preserve, rowOrder = ascending, showSubExpressions = True\<rparr>"

definition exampleAnalysis :: AnalysisResult where
  "exampleAnalysis =
     \<lparr>ast = VarNode 0 (js ''P'') (js ''P'') 0,
      columns =
        [\<lparr>colId = VarColumn (js ''P''), colLabel = js ''P'', colExpression = js ''P'',
          isInput = True, isOutput = False, astId = None, dependencyIds = None\<rparr>,
         \<lparr>colId = NodeColumn 0, colLabel = js ''P'', colExpression = js ''P'',
          isInput = False, isOutput = True, astId = Some 0, dependencyIds = Some []\<rparr>],
      rows = [\<lparr>rowId = 0, rowIndex = 0, vals = [(js ''P'', False)]\<rparr>,
              \<lparr>rowId = 1, rowIndex = 1, vals = [(js ''P'', True)]\<rparr>],
      variables = [js ''P''],
      classification = Contingency,
      mainConnective = N_VAR,
      implicationForms = None,
      kMapData = None,
      rightAway = None,
      sttt = Some \<lparr>criticalRowId = Some 0,
                   reasoning = js ''Proven Contingent. Row 1 is False, while others are True.''\<rparr>,
      complexity = \<lparr>operators = 0, complexityDepth = 1, numVariables = 1, totalRows = 2\<rparr>\<rparr>"

definition emptiedAnalysis :: AnalysisResult where
  "emptiedAnalysis =
     exampleAnalysis
       \<lparr>rows := [], classification := Contradiction, kMapData := None,
        sttt := Some \<lparr>criticalRowId = None,
                      reasoning = js ''No row evaluated to True. Proved Contradiction.''\<rparr>\<rparr>"

definition agreeOn :: "jstring set \<Rightarrow> bool jsobject \<Rightarrow> bool jsobject \<Rightarrow> bool" where
  "agreeOn K v1 v2 = (\<forall>k \<in> K. obj_get v1 k = obj_get v2 k)"

definition resolvable :: "ASTNode \<Rightarrow> TableColumn \<Rightarrow> bool" where
  "resolvable root col =
     (isInput col \<or> findNode (astId col) (extractSubExpressions root []) \<noteq> None
      \<or> astId col = Some (nodeId root))"

definition staleRow :: TruthTableRow where
  "staleRow = \<lparr>rowId = 3, rowIndex = 3,
     vals = [(js ''P'', True), (js ''Q'', True), (js ''P '' @ [c_and] @ js '' Q'', False)]\<rparr>"

definition exampleContrapositive :: jstring where
  "exampleContrapositive =
     [c_not] @ js ''(C) '' @ [c_implies] @ js '' '' @ [c_not] @ js ''(A) '' @ [c_or] @ js '' (B)''"

section \<open>Predicates on Karnaugh maps\<close>

text \<open>
  The notions the statements about the Karnaugh map are written in: a grid with \<open>R\<close> rows
  of \<open>C\<close> cells, the minterm of a cell, a cell that is set, the minterms a list of groups
  covers, and what holds of the solver's state after each candidate.
\<close>

definition rectangular :: "KMapCell list list \<Rightarrow> nat \<Rightarrow> nat \<Rightarrow> bool" where
  "rectangular g R C = (length g = R \<and> (\<forall>row \<in> set g. length row = C) \<and> 0 < R \<and> 0 < C)"

definition mintermAt :: "KMapCell list list \<Rightarrow> nat \<times> nat \<Rightarrow> nat" where
  "mintermAt g rc = mintermIndex (g ! fst rc ! snd rc)"

definition onCell :: "KMapCell list list \<Rightarrow> nat \<Rightarrow> nat \<Rightarrow> nat \<times> nat \<Rightarrow> bool" where
  "onCell g R C rc = (fst rc < R \<and> snd rc < C \<and> cellValue (g ! fst rc ! snd rc))"

definition coveredBy :: "KMapCell list list \<Rightarrow> KMapGroup list \<Rightarrow> nat set" where
  "coveredBy g gs = (\<Union>grp \<in> set gs. mintermAt g ` set (cells grp))"

text \<open>Every group has a cell whose minterm no earlier group covers.\<close>

definition coversNew :: "KMapCell list list \<Rightarrow> KMapGroup list \<Rightarrow> bool" where
  "coversNew g gs =
     (\<forall>i < length gs. \<exists>rc \<in> set (cells (gs ! i)). mintermAt g rc \<notin> coveredBy g (take i gs))"

definition solverInv ::
    "KMapCell list list \<Rightarrow> nat \<Rightarrow> nat \<Rightarrow> KMapGroup list \<times> nat list \<Rightarrow> bool" where
  "solverInv g R C st =
     ((\<forall>grp \<in> set (fst st). \<forall>rc \<in> set (cells grp). onCell g R C rc)
      \<and> set (snd st) = coveredBy g (fst st)
      \<and> coversNew g (fst st))"

definition unitTarget :: "KMapCell list list \<Rightarrow> nat \<Rightarrow> nat \<Rightarrow> nat \<times> nat \<times> nat \<Rightarrow> nat \<Rightarrow> nat \<Rightarrow> nat set" where
  "unitTarget g R C sz r c =
     (if fst sz = 1 \<and> fst (snd sz) = 1 \<and> onCell g R C (r, c) then {mintermAt g (r, c)} else {})"

text \<open>What a map that was produced looks like.\<close>

definition producedMap :: "KMapData \<Rightarrow> nat \<Rightarrow> nat \<Rightarrow> bool" where
  "producedMap km R C =
     (rectangular (grid km) R C
      \<and> (\<exists>cov. solverInv (grid km) R C (groups km, cov))
      \<and> (\<forall>rc. onCell (grid km) R C rc \<longrightarrow> mintermAt (grid km) rc \<in> coveredBy (grid km) (groups km))
      \<and> (\<forall>r < R. \<forall>r' < R. \<forall>c < C. \<forall>c' < C.
            mintermAt (grid km) (r, c) = mintermAt (grid km) (r', c') \<longrightarrow> r = r' \<and> c = c'))"

definition mintermOf :: "KMapCell list list \<Rightarrow> nat \<times> nat \<Rightarrow> nat option" where
  "mintermOf g rc = map_option mintermIndex (cellAt g (fst rc) (snd rc))"

definition exampleRow :: TruthTableRow where
  "exampleRow = \<lparr>rowId = 3, rowIndex = 3,
     vals = [(js ''P'', True), (js ''Q'', True), (js ''P '' @ [c_and] @ js '' Q'', True)]\<rparr>"

section \<open>Predicates on labels\<close>

text \<open>
  The characters \<open>formatLabel\<close> treats as a negation (\<open>-\<close>, \<open>!\<close>, \<open>~\<close> and the
  negation sign), and a label in which no negation sign is followed by another one.
\<close>

definition negationSymbols :: "nat set" where
  "negationSymbols = {c_not, 45, 33, 126}"

fun noDoubleNegation :: "jstring \<Rightarrow> bool" where
  "noDoubleNegation (a # b # rest) = (\<not> (a = c_not \<and> b = c_not) \<and> noDoubleNegation (b # rest))"
| "noDoubleNegation s = True"

section \<open>Properties of label formatting\<close>

lemma normalizeNegations_all:
  "set s \<subseteq> {c_not, 45, 33, 126} \<Longrightarrow> normalizeNegations s = replicate (length s) c_not"
  by (induction s) (auto simp: normalizeNegations_def)

lemma normalizeNegations_append:
  "normalizeNegations (a @ b) = normalizeNegations a @ normalizeNegations b"
  by (simp add: normalizeNegations_def)

lemma normalizeNegations_plain:
  "set s \<inter> negationSymbols = {} \<Longrightarrow> normalizeNegations s = s \<and> c_not \<notin> set s"
  by (induction s) (auto simp: normalizeNegations_def negationSymbols_def)

lemma removeDoubleNegations_other:
  "b \<noteq> c_not \<Longrightarrow> removeDoubleNegations (b # rest) = b # removeDoubleNegations rest"
  by (cases rest) auto

text \<open>One pass leaves no pair behind: the characters between two runs of signs stay.\<close>

lemma removeDoubleNegations_noDouble: "noDoubleNegation (removeDoubleNegations s)"
proof (induction s rule: removeDoubleNegations.induct)
  case (1 a b rest)
  show ?case
  proof (cases "a = c_not \<and> b = c_not")
    case True
    with 1 show ?thesis by simp
  next
    case False
    show ?thesis
    proof (cases "b = c_not")
      case True
      with False have "a \<noteq> c_not" by simp
      with 1 False show ?thesis
        by (cases "removeDoubleNegations (b # rest)") auto
    next
      case nb: False
      with 1 False show ?thesis by (simp add: removeDoubleNegations_other)
    qed
  qed
qed simp_all

lemma removeDoubleNegations_fixed: "noDoubleNegation s \<Longrightarrow> removeDoubleNegations s = s"
  by (induction s rule: removeDoubleNegations.induct) auto

lemma removeDoubleNegations_others:
  "filter (\<lambda>c. c \<noteq> c_not) (removeDoubleNegations s) = filter (\<lambda>c. c \<noteq> c_not) s"
  by (induction s rule: removeDoubleNegations.induct) auto

lemma removeDoubleNegations_plain: "c_not \<notin> set s \<Longrightarrow> removeDoubleNegations s = s"
  by (induction s rule: removeDoubleNegations.induct) auto

lemma removeDoubleNegations_replicate:
  "removeDoubleNegations (replicate n c_not) = replicate (n mod 2) c_not"
proof (induction n rule: less_induct)
  case (less n)
  show ?case
  proof (cases n)
    case 0
    then show ?thesis by simp
  next
    case (Suc m)
    show ?thesis
    proof (cases m)
      case 0
      with Suc show ?thesis by simp
    next
      case (Suc k)
      have "k < n" using \<open>n = Suc m\<close> Suc by simp
      from less [OF this] show ?thesis using \<open>n = Suc m\<close> Suc by simp
    qed
  qed
qed

lemma removeDoubleNegations_prefix:
  "lit \<noteq> [] \<Longrightarrow> c_not \<notin> set lit \<Longrightarrow>
   removeDoubleNegations (replicate n c_not @ lit) = replicate (n mod 2) c_not @ lit"
proof (induction n rule: less_induct)
  case (less n)
  obtain a rest where lit: "lit = a # rest" using less.prems(1) by (cases lit) auto
  then have a: "a \<noteq> c_not" using less.prems(2) by auto
  show ?case
  proof (cases n)
    case 0
    then show ?thesis using less.prems by (simp add: removeDoubleNegations_plain)
  next
    case (Suc m)
    show ?thesis
    proof (cases m)
      case 0
      with Suc show ?thesis using a lit less.prems
        by (simp add: removeDoubleNegations_other removeDoubleNegations_plain)
    next
      case (Suc k)
      have "k < n" using \<open>n = Suc m\<close> Suc by simp
      from less.IH [OF this less.prems] show ?thesis using \<open>n = Suc m\<close> Suc by simp
    qed
  qed
qed

lemma simplifyLoop_fixed: "removeDoubleNegations s = s \<Longrightarrow> simplifyLoop s prev = s"
  by (subst simplifyLoop.simps, subst simplifyLoop.simps) simp

text \<open>The loop runs the replacement twice at most: the second pass changes nothing.\<close>

lemma simplifyLoop_one_pass: "simplifyLoop s [] = removeDoubleNegations s"
proof (cases "s = []")
  case True
  then show ?thesis by (simp add: simplifyLoop.simps)
next
  case False
  have "simplifyLoop s [] = simplifyLoop (removeDoubleNegations s) s"
    using False by (subst simplifyLoop.simps) simp
  also have "\<dots> = removeDoubleNegations s"
    by (intro simplifyLoop_fixed removeDoubleNegations_fixed removeDoubleNegations_noDouble)
  finally show ?thesis .
qed

lemma formatLabel_simplify:
  "negationHandling settings = simplify \<Longrightarrow>
   formatLabel s settings =
     (if removeDoubleNegations (normalizeNegations s) \<noteq> []
      then removeDoubleNegations (normalizeNegations s) else [c_not, c_not])"
  by (simp add: formatLabel_def Let_def simplifyLoop_one_pass)

text \<open>
  C8, amended.  With \<open>negationHandling = simplify\<close>, \<open>formatLabel\<close> cancels the pairs of
  negation symbols of every label \<open>s\<close>: the label it returns is never empty; it is either the
  two negation signs the code substitutes when nothing is left, or a label in which no
  negation sign follows another; and the characters of \<open>s\<close> that are no negation symbols are
  all kept, in their order.  Negation symbols in front of a literal (a non-empty string
  without negation symbols) cancel down to the literal when their number is even and to the
  literal after one negation sign when it is odd.  A label made only of negation symbols
  gives one negation sign when their number is odd and, nothing being left, the two
  negation signs when it is even.
\<close>

theorem formatLabel_simplify_negations:
  assumes "negationHandling settings = simplify"
  shows "formatLabel s settings \<noteq> []
    \<and> (formatLabel s settings = [c_not, c_not] \<or> noDoubleNegation (formatLabel s settings))
    \<and> filter (\<lambda>c. c \<noteq> c_not) (formatLabel s settings)
        = filter (\<lambda>c. c \<notin> negationSymbols) s
    \<and> (set negs \<subseteq> negationSymbols \<and> lit \<noteq> [] \<and> set lit \<inter> negationSymbols = {}
         \<longrightarrow> formatLabel (negs @ lit) settings = (if even (length negs) then lit else c_not # lit))
    \<and> (set s \<subseteq> negationSymbols
         \<longrightarrow> formatLabel s settings = (if even (length s) then [c_not, c_not] else [c_not]))"
proof (intro conjI impI)
  let ?r = "removeDoubleNegations (normalizeNegations s)"
  note fl = formatLabel_simplify [OF assms]
  show "formatLabel s settings \<noteq> []" by (simp add: fl)
  show "formatLabel s settings = [c_not, c_not] \<or> noDoubleNegation (formatLabel s settings)"
    by (simp add: fl removeDoubleNegations_noDouble)
  have "filter (\<lambda>c. c \<noteq> c_not) (normalizeNegations s) = filter (\<lambda>c. c \<notin> negationSymbols) s"
    by (induction s) (auto simp: normalizeNegations_def negationSymbols_def)
  moreover have "?r = [] \<Longrightarrow> filter (\<lambda>c. c \<noteq> c_not) (normalizeNegations s) = []"
    using removeDoubleNegations_others [of "normalizeNegations s"] by simp
  ultimately show "filter (\<lambda>c. c \<noteq> c_not) (formatLabel s settings)
        = filter (\<lambda>c. c \<notin> negationSymbols) s"
    using removeDoubleNegations_others [of "normalizeNegations s"]
    by (auto simp: fl char_defs)
next
  assume h: "set negs \<subseteq> negationSymbols \<and> lit \<noteq> [] \<and> set lit \<inter> negationSymbols = {}"
  then have n: "normalizeNegations negs = replicate (length negs) c_not"
    by (intro normalizeNegations_all) (simp add: negationSymbols_def)
  from h have l: "normalizeNegations lit = lit" "c_not \<notin> set lit"
    using normalizeNegations_plain [of lit] by simp_all
  have "removeDoubleNegations (normalizeNegations (negs @ lit))
        = replicate (length negs mod 2) c_not @ lit"
    using h l by (simp add: normalizeNegations_append n removeDoubleNegations_prefix)
  moreover have "length negs mod 2 = (if even (length negs) then 0 else 1)"
    by (simp add: even_iff_mod_2_eq_zero odd_iff_mod_2_eq_one)
  ultimately show "formatLabel (negs @ lit) settings = (if even (length negs) then lit else c_not # lit)"
    using h by (simp add: formatLabel_simplify [OF assms])
next
  assume h: "set s \<subseteq> negationSymbols"
  then have "removeDoubleNegations (normalizeNegations s) = replicate (length s mod 2) c_not"
    by (simp add: normalizeNegations_all negationSymbols_def removeDoubleNegations_replicate)
  moreover have "length s mod 2 = (if even (length s) then 0 else 1)"
    by (simp add: even_iff_mod_2_eq_zero odd_iff_mod_2_eq_one)
  ultimately show "formatLabel s settings = (if even (length s) then [c_not, c_not] else [c_not])"
    by (simp add: formatLabel_simplify [OF assms])
qed

text \<open>
  C8, instances: the label \<open>~-!\<close> followed by a negation sign, and the three symbols
  \<open>~!-\<close> in front of the literal \<open>(A)\<close>.
\<close>

theorem formatLabel_simplify_negations_witness:
  "negationHandling \<lparr>negationHandling = simplify, rowOrder = ascending, showSubExpressions = True\<rparr>
     = simplify
   \<and> set (js ''~-!'' @ [c_not]) \<subseteq> negationSymbols
   \<and> set (js ''~!-'') \<subseteq> negationSymbols \<and> js ''(A)'' \<noteq> [] \<and> set (js ''(A)'') \<inter> negationSymbols = {}
   \<and> formatLabel (js ''~-!'' @ [c_not])
        \<lparr>negationHandling = simplify, rowOrder = ascending, showSubExpressions = True\<rparr>
     = [c_not, c_not]
   \<and> formatLabel (js ''~!-(A)'')
        \<lparr>negationHandling = simplify, rowOrder = ascending, showSubExpressions = True\<rparr>
     = c_not # js ''(A)''"
  using formatLabel_simplify_negations
    [of "\<lparr>negationHandling = simplify, rowOrder = ascending, showSubExpressions = True\<rparr>"
        "js ''~-!'' @ [c_not]" "js ''~!-''" "js ''(A)''"]
  by (simp add: js_def negationSymbols_def char_defs)

text \<open>
  C8 as stated fails: the label of two negation signs is not formatted to the empty
  string.
\<close>

theorem formatLabel_double_negation_not_empty:
  "formatLabel [c_not, c_not]
     \<lparr>negationHandling = simplify, rowOrder = ascending, showSubExpressions = True\<rparr> \<noteq> []"
  by (simp add: formatLabel_def Let_def normalizeNegations_def simplifyLoop.simps char_defs)



section \<open>Evaluating the tokenizer and the parser\<close>

text \<open>Rules that evaluate the tokenizer and the parser on a given input.\<close>

lemmas token_eval = tokenize_def toUpperCaseASCII_def isWhiteSpace_def matchOperator_def
  opKeys_eq startsWith_def OPS_def js_def typeOfOperatorSymbol_def typeOfSymbolChar_def
  isSymbolChar_def SYMBOLS_def isVarChar_def char_defs

lemmas parse_eval = parse_def newParser_def parser_simps peek_def consume_def generateId_def
  mkBinary_def Let_def

section \<open>Properties of the Karnaugh map\<close>

subsection \<open>Grids\<close>

lemma cellAt_rectangular:
  "rectangular g R C \<Longrightarrow> rr < R \<Longrightarrow> cc < C \<Longrightarrow> cellAt g rr cc = Some (g ! rr ! cc)"
  by (auto simp: rectangular_def cellAt_def)

lemma set_set_add [simp]: "set (set_add x xs) = insert x (set xs)"
  by (auto simp: set_add_def)

lemma set_fold_set_add: "set (fold set_add xs ys) = set xs \<union> set ys"
  by (induction xs arbitrary: ys) auto

lemma collectCells_rectangular:
  assumes "rectangular g R C" and "\<forall>rc \<in> set coords. fst rc < R \<and> snd rc < C"
  shows "\<exists>res. collectCells g coords (cs, ms) = Inr res \<and>
           (case res of
              None \<Rightarrow> \<exists>rc \<in> set coords. \<not> onCell g R C rc
            | Some (cs', ms') \<Rightarrow> cs' = cs @ coords \<and> (\<forall>rc \<in> set coords. onCell g R C rc)
                \<and> set ms' = set ms \<union> mintermAt g ` set coords)"
  using assms(2)
proof (induction coords arbitrary: cs ms)
  case Nil
  then show ?case by simp
next
  case (Cons rc coords)
  obtain rr cc where rc: "rc = (rr, cc)" by (cases rc)
  from Cons.prems rc have inr: "rr < R" "cc < C" by auto
  have at: "cellAt g rr cc = Some (g ! rr ! cc)"
    using assms(1) inr by (rule cellAt_rectangular)
  show ?case
  proof (cases "cellValue (g ! rr ! cc)")
    case False
    then show ?thesis using rc at by (simp add: onCell_def)
  next
    case True
    from Cons.prems have "\<forall>rc \<in> set coords. fst rc < R \<and> snd rc < C" by simp
    from Cons.IH [OF this, of "cs @ [(rr, cc)]" "set_add (mintermIndex (g ! rr ! cc)) ms"]
    obtain res where res: "collectCells g coords (cs @ [(rr, cc)], set_add (mintermIndex (g ! rr ! cc)) ms) = Inr res"
      and props: "(case res of
              None \<Rightarrow> \<exists>rc \<in> set coords. \<not> onCell g R C rc
            | Some (cs', ms') \<Rightarrow> cs' = (cs @ [(rr, cc)]) @ coords \<and> (\<forall>rc \<in> set coords. onCell g R C rc)
                \<and> set ms' = set (set_add (mintermIndex (g ! rr ! cc)) ms) \<union> mintermAt g ` set coords)"
      by blast
    have "collectCells g (rc # coords) (cs, ms) = Inr res"
      using rc at True res by simp
    moreover have "onCell g R C rc" using rc inr True by (simp add: onCell_def)
    ultimately show ?thesis using props rc
      by (cases res) (auto simp: mintermAt_def)
  qed
qed

lemma groupCoordinates_in_range:
  assumes "0 < R" "0 < C"
  shows "\<forall>rc \<in> set (groupCoordinates R C sz r c). fst rc < R \<and> snd rc < C"
  using assms by (cases sz) (auto simp: groupCoordinates_def)

lemma groupCoordinates_unit:
  "r < R \<Longrightarrow> c < C \<Longrightarrow> groupCoordinates R C (1, 1, a) r c = [(r, c)]"
  by (simp add: groupCoordinates_def)

subsection \<open>The state of the solver\<close>

lemma coveredBy_append:
  "coveredBy g (gs @ [grp]) = coveredBy g gs \<union> mintermAt g ` set (cells grp)"
  by (auto simp: coveredBy_def)

lemma coversNew_append:
  assumes "coversNew g gs" and "rc \<in> set (cells grp)" and "mintermAt g rc \<notin> coveredBy g gs"
  shows "coversNew g (gs @ [grp])"
  unfolding coversNew_def
proof (intro allI impI)
  fix i
  assume "i < length (gs @ [grp])"
  then consider "i < length gs" | "i = length gs" by fastforce
  then show "\<exists>rc \<in> set (cells ((gs @ [grp]) ! i)).
               mintermAt g rc \<notin> coveredBy g (take i (gs @ [grp]))"
  proof cases
    case 1
    with assms(1) show ?thesis by (simp add: coversNew_def nth_append)
  next
    case 2
    with assms(2,3) show ?thesis by (auto simp: nth_append)
  qed
qed

lemma tryGroup_step:
  assumes g: "rectangular g R C" and inv: "solverInv g R C st"
  shows "\<exists>st'. tryGroup g rowVars colVars rowGray colGray R C sz r c st = Inr st'
           \<and> solverInv g R C st' \<and> set (snd st) \<subseteq> set (snd st')
           \<and> (fst sz = 1 \<and> fst (snd sz) = 1 \<and> onCell g R C (r, c)
                \<longrightarrow> mintermAt g (r, c) \<in> set (snd st'))"
proof -
  obtain gs covered where st: "st = (gs, covered)" by (cases st)
  from g have pos: "0 < R" "0 < C" by (auto simp: rectangular_def)
  let ?coords = "groupCoordinates R C sz r c"
  from collectCells_rectangular [OF g groupCoordinates_in_range [OF pos], of sz r c "[]" "[]"]
  obtain res where res: "collectCells g ?coords ([], []) = Inr res"
    and props: "(case res of
              None \<Rightarrow> \<exists>rc \<in> set ?coords. \<not> onCell g R C rc
            | Some (cs', ms') \<Rightarrow> cs' = [] @ ?coords \<and> (\<forall>rc \<in> set ?coords. onCell g R C rc)
                \<and> set ms' = set [] \<union> mintermAt g ` set ?coords)"
    by blast
  have unit: "?coords = [(r, c)]" if "fst sz = 1" "fst (snd sz) = 1" "onCell g R C (r, c)"
    using that groupCoordinates_unit [of r R c C "snd (snd sz)"]
    by (cases sz) (auto simp: onCell_def)
  show ?thesis
  proof (cases res)
    case None
    then have "tryGroup g rowVars colVars rowGray colGray R C sz r c st = Inr st"
      using res st by (simp add: tryGroup_def)
    moreover have "\<not> (fst sz = 1 \<and> fst (snd sz) = 1 \<and> onCell g R C (r, c))"
      using None props unit by auto
    ultimately show ?thesis using inv by auto
  next
    case (Some pair)
    obtain cs ms where pair: "pair = (cs, ms)" by (cases pair)
    from props Some pair have cs: "cs = ?coords"
      and on: "\<forall>rc \<in> set ?coords. onCell g R C rc"
      and ms: "set ms = mintermAt g ` set ?coords" by auto
    have target: "mintermAt g (r, c) \<in> set ms"
      if "fst sz = 1 \<and> fst (snd sz) = 1 \<and> onCell g R C (r, c)"
      using that unit ms by auto
    show ?thesis
    proof (cases "list_ex (\<lambda>m. m \<notin> set covered) ms")
      case False
      then have "tryGroup g rowVars colVars rowGray colGray R C sz r c st = Inr st"
        using res st Some pair by (simp add: tryGroup_def)
      moreover from False have "set ms \<subseteq> set covered" by (auto simp: list_ex_iff)
      ultimately show ?thesis using inv target st by auto
    next
      case True
      let ?grp = "\<lparr>cells = cs, color = colors ! (length gs mod length colors),
                    gterm = generateTerm ms rowVars colVars (length rowGray) (length colGray)\<rparr>"
      let ?st' = "(gs @ [?grp], fold set_add ms covered)"
      have step: "tryGroup g rowVars colVars rowGray colGray R C sz r c st = Inr ?st'"
        using res st Some pair True by (simp add: tryGroup_def Let_def)
      from True obtain m where m: "m \<in> set ms" "m \<notin> set covered" by (auto simp: list_ex_iff)
      with ms obtain rc where rc: "rc \<in> set ?coords" "mintermAt g rc = m" by auto
      from inv st have cov: "set covered = coveredBy g gs"
        and old: "\<forall>grp \<in> set gs. \<forall>rc \<in> set (cells grp). onCell g R C rc"
        and new: "coversNew g gs" by (auto simp: solverInv_def)
      have "coversNew g (gs @ [?grp])"
        using new rc m cov cs by (intro coversNew_append [of g gs rc]) auto
      moreover have "set (fold set_add ms covered) = coveredBy g (gs @ [?grp])"
        using cov ms cs by (auto simp: set_fold_set_add coveredBy_append)
      moreover have "\<forall>grp \<in> set (gs @ [?grp]). \<forall>rc \<in> set (cells grp). onCell g R C rc"
        using old on cs by auto
      ultimately have "solverInv g R C ?st'" by (simp add: solverInv_def)
      moreover have "set (snd st) \<subseteq> set (snd ?st')" using st by (auto simp: set_fold_set_add)
      moreover have "fst sz = 1 \<and> fst (snd sz) = 1 \<and> onCell g R C (r, c)
                \<longrightarrow> mintermAt g (r, c) \<in> set (snd ?st')"
        using target by (auto simp: set_fold_set_add)
      ultimately show ?thesis using step by blast
    qed
  qed
qed

subsection \<open>The loops of the solver\<close>

lemma foldE_covers:
  assumes step: "\<And>x st. x \<in> set xs \<Longrightarrow> P st \<Longrightarrow>
             \<exists>st'. f x st = Inr st' \<and> P st' \<and> M st \<subseteq> M st' \<and> K x \<subseteq> M st'"
    and "P st"
  shows "\<exists>st'. foldE f xs st = Inr st' \<and> P st' \<and> M st \<subseteq> M st' \<and> (\<Union>x \<in> set xs. K x) \<subseteq> M st'"
  using assms
proof (induction xs arbitrary: st)
  case Nil
  then show ?case by simp
next
  case (Cons x xs)
  from Cons.prems(1) [of x st] Cons.prems(2)
  obtain st1 where st1: "f x st = Inr st1" "P st1" "M st \<subseteq> M st1" "K x \<subseteq> M st1"
    by auto
  have "\<exists>st'. foldE f xs st1 = Inr st' \<and> P st' \<and> M st1 \<subseteq> M st' \<and> (\<Union>x \<in> set xs. K x) \<subseteq> M st'"
    using Cons.prems(1) st1(2) by (intro Cons.IH) auto
  then obtain st' where st': "foldE f xs st1 = Inr st'" "P st'" "M st1 \<subseteq> M st'"
    "(\<Union>x \<in> set xs. K x) \<subseteq> M st'" by blast
  have "foldE f (x # xs) st = Inr st'" using st1(1) st'(1) by simp
  moreover have "M st \<subseteq> M st'" using st1(3) st'(3) by blast
  moreover have "(\<Union>y \<in> set (x # xs). K y) \<subseteq> M st'" using st1(4) st'(3,4) by auto
  ultimately show ?case using st'(2) by blast
qed

lemma isPowerOfTwo_1: "isPowerOfTwo 1"
  by (simp add: isPowerOfTwo_def)

lemma unit_in_sizes: "0 < R \<Longrightarrow> 0 < C \<Longrightarrow> (1, 1, 1) \<in> set (sizes R C)"
  using isPowerOfTwo_1 by (auto simp: sizes_def)

lemma solveKMap_rectangular:
  assumes g: "rectangular g R C"
  shows "\<exists>gs cov. solveKMap g onMinterms rowVars colVars rowGray colGray
                   = Inr (gs, join (js '' '' @ [c_or] @ js '' '') (map gterm gs))
           \<and> solverInv g R C (gs, cov)
           \<and> (\<forall>rc. onCell g R C rc \<longrightarrow> mintermAt g rc \<in> coveredBy g gs)"
proof -
  let ?attempt = "tryGroup g rowVars colVars rowGray colGray R C"
  let ?P = "solverInv g R C"
  let ?M = "\<lambda>st :: KMapGroup list \<times> nat list. set (snd st)"
  from g have pos: "0 < R" "0 < C" by (auto simp: rectangular_def)
  from g obtain row0 rest where gcons: "g = row0 # rest" "length g = R" "length row0 = C"
    by (cases g) (auto simp: rectangular_def)
  have inner: "\<exists>st'. foldE (?attempt sz r) [0..<C] st = Inr st' \<and> ?P st' \<and> ?M st \<subseteq> ?M st'
                 \<and> (\<Union>c \<in> set [0..<C]. unitTarget g R C sz r c) \<subseteq> ?M st'"
    if "?P st" for sz r st
  proof (rule foldE_covers [where P = "?P" and M = "?M"])
    fix c st0
    assume "?P st0"
    from tryGroup_step [OF g this, of rowVars colVars rowGray colGray sz r c]
    show "\<exists>st'. ?attempt sz r c st0 = Inr st' \<and> ?P st' \<and> ?M st0 \<subseteq> ?M st'
            \<and> unitTarget g R C sz r c \<subseteq> ?M st'"
      by (auto simp: unitTarget_def)
  qed (rule that)
  have middle: "\<exists>st'. foldE (\<lambda>r. foldE (?attempt sz r) [0..<C]) [0..<R] st = Inr st' \<and> ?P st'
                  \<and> ?M st \<subseteq> ?M st'
                  \<and> (\<Union>r \<in> set [0..<R]. \<Union>c \<in> set [0..<C]. unitTarget g R C sz r c) \<subseteq> ?M st'"
    if "?P st" for sz st
    by (rule foldE_covers [where P = "?P" and M = "?M"]) (use inner that in auto)
  have init: "?P ([], [])"
    by (simp add: solverInv_def coveredBy_def coversNew_def)
  have "\<exists>st'. foldE (\<lambda>sz. foldE (\<lambda>r. foldE (?attempt sz r) [0..<C]) [0..<R]) (sizes R C) ([], [])
                 = Inr st' \<and> ?P st' \<and> ?M ([], []) \<subseteq> ?M st'
          \<and> (\<Union>sz \<in> set (sizes R C). \<Union>r \<in> set [0..<R]. \<Union>c \<in> set [0..<C].
                unitTarget g R C sz r c) \<subseteq> ?M st'"
    by (rule foldE_covers [where P = "?P" and M = "?M"]) (use middle init in auto)
  then obtain gs cov where
    run: "foldE (\<lambda>sz. foldE (\<lambda>r. foldE (?attempt sz r) [0..<C]) [0..<R]) (sizes R C) ([], [])
            = Inr (gs, cov)"
    and inv: "?P (gs, cov)"
    and all: "(\<Union>sz \<in> set (sizes R C). \<Union>r \<in> set [0..<R]. \<Union>c \<in> set [0..<C].
                unitTarget g R C sz r c) \<subseteq> set cov"
    by auto
  have "mintermAt g rc \<in> coveredBy g gs" if "onCell g R C rc" for rc
  proof -
    obtain r c where rc: "rc = (r, c)" by (cases rc)
    with that have "r < R" "c < C" by (auto simp: onCell_def)
    then have "unitTarget g R C (1, 1, 1) r c \<subseteq> set cov"
      using all unit_in_sizes [OF pos] by fastforce
    then have "mintermAt g rc \<in> set cov" using that rc by (simp add: unitTarget_def)
    then show ?thesis using inv by (simp add: solverInv_def)
  qed
  moreover have "solveKMap g onMinterms rowVars colVars rowGray colGray
                   = Inr (gs, join (js '' '' @ [c_or] @ js '' '') (map gterm gs))"
    using run gcons by (simp add: solveKMap_def Let_def)
  ultimately show ?thesis using inv by blast
qed

lemma gray_index_decode:
  assumes "a = 1 \<or> a = 2" "b = 1 \<or> b = 2"
    and "r < length (getGrayCode a)" "c < length (getGrayCode b)"
  shows "[0, 1, 3, 2] ! (parseInt2 (getGrayCode a ! r @ getGrayCode b ! c) div 2 ^ b) = r
       \<and> [0, 1, 3, 2] ! (parseInt2 (getGrayCode a ! r @ getGrayCode b ! c) mod 2 ^ b) = c"
  using assms
  by (elim disjE) (auto simp: getGrayCode_def parseInt2_def js_def less_Suc_eq)

lemma gray_index_injective:
  assumes "a = 1 \<or> a = 2" "b = 1 \<or> b = 2"
    and "r < length (getGrayCode a)" "r' < length (getGrayCode a)"
    and "c < length (getGrayCode b)" "c' < length (getGrayCode b)"
    and "parseInt2 (getGrayCode a ! r @ getGrayCode b ! c)
         = parseInt2 (getGrayCode a ! r' @ getGrayCode b ! c')"
  shows "r = r' \<and> c = c'"
  using gray_index_decode [OF assms(1,2,3,5)] gray_index_decode [OF assms(1,2,4,6)] assms(7)
  by metis

lemma buildGrid_rectangular:
  "rowGray \<noteq> [] \<Longrightarrow> colGray \<noteq> [] \<Longrightarrow>
   rectangular (buildGrid mm rowGray colGray) (length rowGray) (length colGray)"
  by (auto simp: rectangular_def buildGrid_def)

lemma buildGrid_minterm:
  "r < length rowGray \<Longrightarrow> c < length colGray \<Longrightarrow>
   mintermAt (buildGrid mm rowGray colGray) (r, c) = parseInt2 (rowGray ! r @ colGray ! c)"
  by (simp add: mintermAt_def buildGrid_def Let_def)

lemma getGrayCode_nonempty: "a = 1 \<or> a = 2 \<Longrightarrow> getGrayCode a \<noteq> []"
  by (auto simp: getGrayCode_def)

lemma generateKMap_produced:
  assumes "2 \<le> length vs" "length vs \<le> 4"
  shows "\<exists>km R C. generateKMap vs rs = Inr (Some km) \<and> producedMap km R C"
proof -
  define rowVars where "rowVars = (if length vs = 2 then [vs ! 0]
                        else if length vs = 3 then [vs ! 0] else take 2 vs)"
  define colVars where "colVars = (if length vs = 2 then [vs ! 1]
                        else if length vs = 3 then drop 1 vs else drop 2 vs)"
  define a where "a = length rowVars"
  define b where "b = length colVars"
  obtain om mm where cm: "collectMinterms vs rs = (om, mm)" by (cases "collectMinterms vs rs")
  define g where "g = buildGrid mm (getGrayCode a) (getGrayCode b)"
  have ab: "a = 1 \<or> a = 2" "b = 1 \<or> b = 2"
    using assms by (auto simp: a_def b_def rowVars_def colVars_def)
  let ?R = "length (getGrayCode a)" and ?C = "length (getGrayCode b)"
  have rect: "rectangular g ?R ?C"
    unfolding g_def using ab by (intro buildGrid_rectangular getGrayCode_nonempty)
  from solveKMap_rectangular [OF rect, of om rowVars colVars "getGrayCode a" "getGrayCode b"]
  obtain gs cov where
    solve: "solveKMap g om rowVars colVars (getGrayCode a) (getGrayCode b)
              = Inr (gs, join (js '' '' @ [c_or] @ js '' '') (map gterm gs))"
    and inv: "solverInv g ?R ?C (gs, cov)"
    and cover: "\<forall>rc. onCell g ?R ?C rc \<longrightarrow> mintermAt g rc \<in> coveredBy g gs"
    by blast
  let ?minExpr = "join (js '' '' @ [c_or] @ js '' '') (map gterm gs)"
  let ?km = "\<lparr>kvariables = vs, grid = g, rowLabels = getGrayCode a,
              colLabels = getGrayCode b, groups = gs,
              minimizedExpression =
                (if ?minExpr \<noteq> [] then ?minExpr
                 else if om = [] then js ''0'' else js ''1'')\<rparr>"
  have "generateKMap vs rs = Inr (Some ?km)"
    using assms cm solve
    by (simp add: generateKMap_def Let_def rowVars_def [symmetric] colVars_def [symmetric]
        a_def [symmetric] b_def [symmetric] g_def [symmetric])
  moreover have "r = r' \<and> c = c'"
    if "r < ?R" "r' < ?R" "c < ?C" "c' < ?C" "mintermAt g (r, c) = mintermAt g (r', c')"
    for r r' c c'
    using that ab by (intro gray_index_injective [of a b]) (simp_all add: g_def buildGrid_minterm)
  ultimately show ?thesis
    using rect inv cover unfolding producedMap_def
    by (intro exI [of _ ?km] exI [of _ ?R] exI [of _ ?C]) auto
qed

lemma generateKMap_no_error: "\<exists>km. generateKMap vs rs = Inr km"
proof (cases "2 \<le> length vs \<and> length vs \<le> 4")
  case True
  then show ?thesis using generateKMap_produced [of vs rs] by blast
next
  case False
  then show ?thesis by (auto simp: generateKMap_def)
qed

lemma onCell_cellAt:
  "rectangular g R C \<Longrightarrow> onCell g R C rc \<longleftrightarrow>
     (\<exists>cell. cellAt g (fst rc) (snd rc) = Some cell \<and> cellValue cell)"
  by (auto simp: rectangular_def onCell_def cellAt_def)

lemma onCell_mintermOf:
  "rectangular g R C \<Longrightarrow> onCell g R C rc \<Longrightarrow> mintermOf g rc = Some (mintermAt g rc)"
  by (auto simp: rectangular_def onCell_def cellAt_def mintermOf_def mintermAt_def)

text \<open>
  C4.  For 2, 3 or 4 declared variables and any rows, a Karnaugh map is produced; every cell
  of its grid whose value is true lies in an accepted group; every cell of an accepted group
  is a cell of the grid whose value is true; and every accepted group has a cell whose minterm
  is the minterm of no cell of a group accepted before it.
\<close>

theorem karnaugh_groups_cover:
  assumes "length vs \<in> {2, 3, 4}"
  shows "\<exists>km. generateKMap vs rs = Inr (Some km)
    \<and> (\<forall>r c cell. cellAt (grid km) r c = Some cell \<and> cellValue cell
          \<longrightarrow> (\<exists>grp \<in> set (groups km). (r, c) \<in> set (cells grp)))
    \<and> (\<forall>grp \<in> set (groups km). \<forall>rc \<in> set (cells grp).
          \<exists>cell. cellAt (grid km) (fst rc) (snd rc) = Some cell \<and> cellValue cell)
    \<and> (\<forall>i < length (groups km). \<exists>rc \<in> set (cells (groups km ! i)).
          \<forall>j < i. \<forall>rc' \<in> set (cells (groups km ! j)).
            mintermOf (grid km) rc \<noteq> mintermOf (grid km) rc')"
proof -
  from assms have "2 \<le> length vs" "length vs \<le> 4" by auto
  from generateKMap_produced [OF this, of rs]
  obtain km R C where km: "generateKMap vs rs = Inr (Some km)" and pm: "producedMap km R C"
    by blast
  let ?g = "grid km" and ?gs = "groups km"
  from pm have rect: "rectangular ?g R C"
    and on: "\<forall>grp \<in> set ?gs. \<forall>rc \<in> set (cells grp). onCell ?g R C rc"
    and new: "coversNew ?g ?gs"
    and cover: "\<forall>rc. onCell ?g R C rc \<longrightarrow> mintermAt ?g rc \<in> coveredBy ?g ?gs"
    and inj: "\<forall>r < R. \<forall>r' < R. \<forall>c < C. \<forall>c' < C.
            mintermAt ?g (r, c) = mintermAt ?g (r', c') \<longrightarrow> r = r' \<and> c = c'"
    by (auto simp: producedMap_def solverInv_def)
  have 1: "\<exists>grp \<in> set ?gs. (r, c) \<in> set (cells grp)"
    if "cellAt ?g r c = Some cell \<and> cellValue cell" for r c cell
  proof -
    from that rect have oc: "onCell ?g R C (r, c)" by (simp add: onCell_cellAt)
    with cover have "mintermAt ?g (r, c) \<in> coveredBy ?g ?gs" by blast
    then obtain grp rc' where grp: "grp \<in> set ?gs" "rc' \<in> set (cells grp)"
      and eq: "mintermAt ?g rc' = mintermAt ?g (r, c)"
      by (auto simp: coveredBy_def)
    from on grp have "onCell ?g R C rc'" by blast
    with oc eq inj have "rc' = (r, c)"
      by (cases rc') (auto simp: onCell_def)
    with grp show ?thesis by blast
  qed
  have 2: "\<exists>cell. cellAt ?g (fst rc) (snd rc) = Some cell \<and> cellValue cell"
    if "grp \<in> set ?gs" "rc \<in> set (cells grp)" for grp rc
    using that on rect by (simp add: onCell_cellAt [symmetric])
  have 3: "\<exists>rc \<in> set (cells (?gs ! i)). \<forall>j < i. \<forall>rc' \<in> set (cells (?gs ! j)).
            mintermOf ?g rc \<noteq> mintermOf ?g rc'"
    if "i < length ?gs" for i
  proof -
    from new that obtain rc where rc: "rc \<in> set (cells (?gs ! i))"
      and fresh: "mintermAt ?g rc \<notin> coveredBy ?g (take i ?gs)"
      by (auto simp: coversNew_def)
    have "mintermOf ?g rc \<noteq> mintermOf ?g rc'"
      if "j < i" "rc' \<in> set (cells (?gs ! j))" for j rc'
    proof -
      from that \<open>i < length ?gs\<close> have mem: "?gs ! j \<in> set (take i ?gs)"
        by (auto simp: in_set_conv_nth intro!: exI [of _ j])
      then have "mintermAt ?g rc' \<in> coveredBy ?g (take i ?gs)"
        using that(2) by (auto simp: coveredBy_def)
      with fresh have ne: "mintermAt ?g rc \<noteq> mintermAt ?g rc'" by auto
      from mem have "?gs ! j \<in> set ?gs" by (rule in_set_takeD)
      with on that(2) have "onCell ?g R C rc'" by blast
      moreover from on rc \<open>i < length ?gs\<close> have "onCell ?g R C rc" by auto
      ultimately show ?thesis using ne rect by (simp add: onCell_mintermOf)
    qed
    with rc show ?thesis by blast
  qed
  from km 1 2 3 show ?thesis by blast
qed

lemma generateKMap_grid:
  assumes "generateKMap vs rs = Inr (Some km)" "length vs = 2"
  shows "grid km = buildGrid (snd (collectMinterms vs rs)) (getGrayCode 1) (getGrayCode 1)"
  using assms
  by (auto simp: generateKMap_def Let_def split: prod.splits sum.splits)

text \<open>
  C4, an instance: two variables and the one row in which both are true; the cell in row 1,
  column 1 of the grid is on and lies in a group.
\<close>

theorem karnaugh_groups_cover_witness:
  "length [js ''P'', js ''Q''] \<in> {2, 3, 4}
   \<and> (\<exists>km cell grp. generateKMap [js ''P'', js ''Q''] [exampleRow] = Inr (Some km)
         \<and> cellAt (grid km) 1 1 = Some cell \<and> cellValue cell
         \<and> grp \<in> set (groups km) \<and> (1, 1) \<in> set (cells grp))"
proof -
  let ?vs = "[js ''P'', js ''Q'']"
  have len: "length ?vs \<in> {2, 3, 4}" by simp
  from karnaugh_groups_cover [OF len, of "[exampleRow]"]
  obtain km where km: "generateKMap ?vs [exampleRow] = Inr (Some km)"
    and cover: "\<forall>r c cell. cellAt (grid km) r c = Some cell \<and> cellValue cell
          \<longrightarrow> (\<exists>grp \<in> set (groups km). (r, c) \<in> set (cells grp))"
    by blast
  have "grid km = buildGrid (snd (collectMinterms ?vs [exampleRow])) (getGrayCode 1) (getGrayCode 1)"
    using km by (rule generateKMap_grid) simp
  then have cell: "cellAt (grid km) 1 1 = Some \<lparr>cellValue = True, mintermIndex = 3\<rparr>"
    by (simp add: collectMinterms_def exampleRow_def Let_def rowMinterm_def obj_get_def js_def
        truthy_def lastValue_def obj_values_def getGrayCode_def buildGrid_def parseInt2_def
        cellAt_def)
  with cover obtain grp where "grp \<in> set (groups km)" "(1, 1) \<in> set (cells grp)"
    by fastforce
  with km cell len show ?thesis by auto
qed


section \<open>Properties of the analysis\<close>

subsection \<open>Objects\<close>

lemma map_of_obj_insert:
  "map_of (obj_insert k v obj) = (map_of obj)(k \<mapsto> v)" if "k \<notin> fst ` set obj"
  using that by (induction obj) (auto simp: fun_eq_iff)

lemma map_of_replace:
  "map_of (map (\<lambda>(a, b). if a = k then (a, v) else (a, b)) obj) x
     = (if x = k \<and> k \<in> fst ` set obj then Some v else map_of obj x)"
proof (induction obj)
  case Nil
  show ?case by simp
next
  case (Cons p obj)
  obtain a b where p: "p = (a, b)" by (cases p)
  show ?case using Cons p by (cases "a = k"; cases "x = k"; simp)
qed

lemma obj_get_set: "obj_get (obj_set obj k v) k' = (if k' = k then Some v else obj_get obj k')"
  by (auto simp: obj_get_def obj_set_def map_of_obj_insert map_of_replace)

subsection \<open>Classification\<close>

lemma classify_fold:
  "fold (\<lambda>row (tautology, contradiction).
           if truthy (obj_get (vals row) e) then (tautology, False)
           else (False, contradiction)) rs (t, c)
   = (t \<and> (\<forall>row \<in> set rs. rootValue e row), c \<and> (\<forall>row \<in> set rs. \<not> rootValue e row))"
  by (induction rs arbitrary: t c) (auto simp: rootValue_def)

lemma classify_eq:
  "classify e rs =
     (if \<forall>row \<in> set rs. \<not> rootValue e row then Contradiction
      else if \<forall>row \<in> set rs. rootValue e row then Tautology
      else Contingency)"
  by (simp add: classify_def classify_fold)

subsection \<open>The result of the analysis\<close>

lemma analyzeLogic_error:
  "undeclaredVariables up expr vs \<noteq> [] \<Longrightarrow>
   analyzeLogic up expr vs settings = Inl (Error (undeclaredMessage (undeclaredVariables up expr vs)))"
  by (simp add: analyzeLogic_def undeclaredVariables_def Let_def)

lemma analyzeLogic_result:
  assumes "undeclaredVariables up expr vs = []"
  shows "\<exists>res. analyzeLogic up expr vs settings = Inr res
     \<and> ast res = parse (tokenize up expr)
     \<and> columns res = finalColumns (parse (tokenize up expr)) vs settings
     \<and> rows res = map (buildRow (parse (tokenize up expr)) vs settings) [0..<2 ^ length vs]
     \<and> variables res = vs
     \<and> classification res = classify (expression (parse (tokenize up expr))) (rows res)
     \<and> rightAway res = analyzeRightAwayEngine (parse (tokenize up expr))
     \<and> generateKMap vs (rows res) = Inr (kMapData res)"
proof -
  let ?rs = "map (buildRow (parse (tokenize up expr)) vs settings) [0..<2 ^ length vs]"
  obtain km where "generateKMap vs ?rs = Inr km"
    using generateKMap_no_error by blast
  then show ?thesis using assms
    by (simp add: analyzeLogic_def undeclaredVariables_def Let_def)
qed

lemma analyzeLogic_cases:
  "analyzeLogic up expr vs settings = Inr res \<Longrightarrow> undeclaredVariables up expr vs = []"
  "analyzeLogic up expr vs settings = Inl e \<Longrightarrow> undeclaredVariables up expr vs \<noteq> []"
  using analyzeLogic_error [of up expr vs settings] analyzeLogic_result [of up expr vs settings]
  by (cases "undeclaredVariables up expr vs = []"; auto)+

subsection \<open>Undeclared variables\<close>

lemma distinct_set_add: "distinct xs \<Longrightarrow> distinct (set_add x xs)"
  by (auto simp: set_add_def)

lemma collect_variables:
  "set (fold (\<lambda>t vars. if P t then set_add (tvalue t) vars else vars) ts acc)
     = set acc \<union> {tvalue t |t. t \<in> set ts \<and> P t}
   \<and> (distinct acc \<longrightarrow>
        distinct (fold (\<lambda>t vars. if P t then set_add (tvalue t) vars else vars) ts acc))"
  by (induction ts arbitrary: acc) (auto simp: distinct_set_add)

lemma set_extractVariables:
  "set (extractVariablesFromExpression up expr)
     = {tvalue t |t. t \<in> set (tokenize up expr) \<and> ttype t = T_VAR \<and> tvalue t \<notin> {js ''0'', js ''1''}}"
  using collect_variables [of "\<lambda>t. ttype t = T_VAR \<and> tvalue t \<notin> set [js ''0'', js ''1'']"
      "tokenize up expr" "[]"]
  by (simp add: extractVariablesFromExpression_def)

lemma undeclaredVariables_props:
  "set (undeclaredVariables up expr vs) = offending up expr vs"
  "distinct (undeclaredVariables up expr vs)"
  "sorted (undeclaredVariables up expr vs)"
proof -
  show "set (undeclaredVariables up expr vs) = offending up expr vs"
    by (auto simp: undeclaredVariables_def offending_def set_extractVariables)
  have "distinct (extractVariablesFromExpression up expr)"
    using collect_variables [of "\<lambda>t. ttype t = T_VAR \<and> tvalue t \<notin> set [js ''0'', js ''1'']"
      "tokenize up expr" "[]"]
    by (simp add: extractVariablesFromExpression_def)
  then show "distinct (undeclaredVariables up expr vs)"
    by (simp add: undeclaredVariables_def)
  show "sorted (undeclaredVariables up expr vs)"
    by (simp add: undeclaredVariables_def extractVariablesFromExpression_def sorted_wrt_filter)
qed

subsection \<open>Rows\<close>

lemma dom_fold_assign:
  "dom (fold (\<lambda>(v, idx) ctx. ctx(v \<mapsto> f idx)) zs m) = dom m \<union> fst ` set zs"
  by (induction zs arbitrary: m) (auto split: prod.splits)

lemma dom_rowContext: "dom (rowContext vs k) = set vs"
proof -
  have "fst ` set (zip vs [0..<length vs]) = set vs"
    by (metis length_upt map_fst_zip minus_nat.diff_0 set_map)
  then show ?thesis by (simp add: rowContext_def dom_fold_assign)
qed

lemma filter_isInput_finalColumns:
  "filter isInput (finalColumns root vs settings) = varColumns vs"
  by (simp add: finalColumns_def varColumns_def stepColumns_def resultColumn_def
      filter_map comp_def)

text \<open>The context of a row has a value for every input column.\<close>

lemma input_column_in_context:
  assumes "c \<in> set (finalColumns root vs settings)" "isInput c"
  shows "\<exists>b. rowContext vs k (colExpression c) = Some b"
proof -
  from assms have "c \<in> set (filter isInput (finalColumns root vs settings))" by simp
  then have "colExpression c \<in> set vs"
    by (auto simp: filter_isInput_finalColumns varColumns_def)
  then show ?thesis using dom_rowContext [of vs k] by auto
qed

lemma finalColumns_snoc:
  "\<exists>cols. finalColumns root vs settings = cols @ [resultColumn root settings]"
  by (auto simp: finalColumns_def)

lemma evaluateColumn_result:
  assumes "\<And>n. findNode (Some (nodeId root)) subs = Some n \<Longrightarrow>
             evaluateAST n ctx = evaluateAST root ctx"
  shows "obj_get (evaluateColumn root subs ctx (resultColumn root settings) rv) (expression root)
           = Some (evaluateAST root ctx)"
  using assms
  by (cases "findNode (Some (nodeId root)) subs")
     (auto simp: evaluateColumn_def resultColumn_def obj_get_set)

lemma row_root_value:
  assumes "\<And>n. findNode (Some (nodeId root)) (extractSubExpressions root []) = Some n \<Longrightarrow>
             evaluateAST n ctx = evaluateAST root ctx"
  shows "obj_get (fold (evaluateColumn root (extractSubExpressions root []) ctx)
                    (finalColumns root vs settings) []) (expression root)
           = Some (evaluateAST root ctx)"
proof -
  obtain cols where "finalColumns root vs settings = cols @ [resultColumn root settings]"
    using finalColumns_snoc by blast
  then show ?thesis using evaluateColumn_result [OF assms] by simp
qed

lemma row_root_present:
  "\<exists>b. obj_get (vals (buildRow root vs settings i)) (expression root) = Some b"
proof -
  obtain cols where cols: "finalColumns root vs settings = cols @ [resultColumn root settings]"
    using finalColumns_snoc by blast
  have "\<exists>b. obj_get (evaluateColumn root subs ctx (resultColumn root settings) rv)
               (expression root) = Some b" for subs ctx rv
    by (cases "findNode (Some (nodeId root)) subs")
       (auto simp: evaluateColumn_def resultColumn_def obj_get_set)
  then show ?thesis using cols by (simp add: buildRow_def Let_def)
qed

subsection \<open>Classification\<close>

lemma classify_consistent: "rs \<noteq> [] \<Longrightarrow> consistentClassification e rs (classify e rs)"
  by (cases rs) (auto simp: consistentClassification_def classify_eq)

lemma reanalyzeFromRows_result:
  "\<exists>km. reanalyzeFromRows current updatedRows settings =
     Inr (current\<lparr>rows := updatedRows,
                  classification := classify (expression (ast current)) updatedRows,
                  kMapData := km,
                  sttt := performSTTT updatedRows (expression (ast current))
                            (classify (expression (ast current)) updatedRows)\<rparr>)"
proof -
  obtain km where "generateKMap (variables current) updatedRows = Inr km"
    using generateKMap_no_error by blast
  then show ?thesis by (intro exI [of _ km]) (simp add: reanalyzeFromRows_def Let_def)
qed

text \<open>
  C3, amended.  A result of \<open>analyzeLogic\<close> has at least one row, every row has a value
  under the root's expression string, and the classification is \<open>Tautology\<close> exactly when
  every row's root value is true, \<open>Contradiction\<close> exactly when every row's root value is
  false, and \<open>Contingency\<close> otherwise.  The same holds of a result of
  \<open>reanalyzeFromRows\<close> on a list of rows that is not empty.
\<close>

theorem classification_consistent:
  "(analyzeLogic up expr vs settings = Inr res \<longrightarrow>
      rows res \<noteq> []
      \<and> (\<forall>row \<in> set (rows res). \<exists>b. obj_get (vals row) (expression (ast res)) = Some b)
      \<and> consistentClassification (expression (ast res)) (rows res) (classification res))
   \<and> (reanalyzeFromRows current updatedRows settings = Inr res' \<and> updatedRows \<noteq> [] \<longrightarrow>
      rows res' = updatedRows \<and> ast res' = ast current
      \<and> consistentClassification (expression (ast res')) (rows res') (classification res'))"
proof -
  have A: "rows res \<noteq> []
      \<and> (\<forall>row \<in> set (rows res). \<exists>b. obj_get (vals row) (expression (ast res)) = Some b)
      \<and> consistentClassification (expression (ast res)) (rows res) (classification res)"
    if a: "analyzeLogic up expr vs settings = Inr res"
  proof -
    from a have "undeclaredVariables up expr vs = []" by (rule analyzeLogic_cases(1))
    from analyzeLogic_result [OF this, of settings] a
    have ast: "ast res = parse (tokenize up expr)"
      and rows: "rows res = map (buildRow (parse (tokenize up expr)) vs settings)
                             [0..<2 ^ length vs]"
      and cls: "classification res = classify (expression (parse (tokenize up expr))) (rows res)"
      by auto
    have ne: "rows res \<noteq> []" using rows by simp
    moreover have "\<forall>row \<in> set (rows res). \<exists>b. obj_get (vals row) (expression (ast res)) = Some b"
      using rows ast row_root_present by auto
    moreover have "consistentClassification (expression (ast res)) (rows res) (classification res)"
      using classify_consistent [OF ne] cls ast by simp
    ultimately show ?thesis by blast
  qed
  have B: "rows res' = updatedRows \<and> ast res' = ast current
      \<and> consistentClassification (expression (ast res')) (rows res') (classification res')"
    if r: "reanalyzeFromRows current updatedRows settings = Inr res'" and ne: "updatedRows \<noteq> []"
  proof -
    from reanalyzeFromRows_result [of current updatedRows settings] r
    have "rows res' = updatedRows" "ast res' = ast current"
      "classification res' = classify (expression (ast current)) updatedRows"
      by auto
    then show ?thesis using classify_consistent [OF ne] by simp
  qed
  from A B show ?thesis by blast
qed

subsection \<open>Expressions without tokens\<close>

lemma parse_no_tokens:
  "parse [\<lparr>ttype = T_EOF, tvalue = []\<rparr>] = VarNode 0 (js ''?'') (js ''?'') 0"
  by (simp add: parse_eval)

text \<open>
  C9, amended.  When the input yields no token other than the end marker and the placeholder
  symbol \<open>?\<close> is not among the declared variables, \<open>analyzeLogic\<close> returns a result: the
  root is the placeholder variable node \<open>?\<close>, every row has the value false under the
  root's expression string, and the classification is \<open>Contradiction\<close>.
\<close>

theorem no_tokens_contradiction:
  assumes "tokenize up input = [\<lparr>ttype = T_EOF, tvalue = []\<rparr>]" and "js ''?'' \<notin> set vs"
  shows "\<exists>res. analyzeLogic up input vs settings = Inr res
           \<and> ast res = VarNode 0 (js ''?'') (js ''?'') 0
           \<and> (\<forall>row \<in> set (rows res). obj_get (vals row) (expression (ast res)) = Some False)
           \<and> classification res = Contradiction"
proof -
  let ?root = "VarNode 0 (js ''?'') (js ''?'') 0"
  have root: "parse (tokenize up input) = ?root"
    using assms(1) parse_no_tokens by simp
  have "offending up input vs = {}"
    using assms(1) by (simp add: offending_def)
  then have "undeclaredVariables up input vs = []"
    using undeclaredVariables_props(1) [of up input vs] by simp
  from analyzeLogic_result [OF this, of settings] root
  obtain res where res: "analyzeLogic up input vs settings = Inr res"
    and ast: "ast res = ?root"
    and rows: "rows res = map (buildRow ?root vs settings) [0..<2 ^ length vs]"
    and cls: "classification res = classify (expression ?root) (rows res)"
    by auto
  have val: "obj_get (vals (buildRow ?root vs settings i)) (expression ?root) = Some False" for i
  proof -
    let ?numRows = "(2::nat) ^ length vs"
    let ?ctx = "rowContext vs (if rowOrder settings = descending then ?numRows - 1 - i else i)"
    have "?ctx (js ''?'') = None"
      using assms(2) dom_rowContext [of vs] by blast
    then have ev: "evaluateAST ?root ?ctx = False" by (simp add: js_def)
    have "findNode (Some (nodeId ?root)) (extractSubExpressions ?root []) = Some n \<Longrightarrow>
            evaluateAST n ?ctx = evaluateAST ?root ?ctx" for n
      by (simp add: findNode_def addSubExpression_def)
    from row_root_value [of ?root ?ctx vs settings, OF this] ev
    show ?thesis by (simp add: buildRow_def Let_def)
  qed
  have all: "\<forall>row \<in> set (rows res). obj_get (vals row) (expression (ast res)) = Some False"
    using rows ast val by auto
  then have "\<forall>row \<in> set (rows res). \<not> rootValue (expression ?root) row"
    using ast by (simp add: rootValue_def truthy_def)
  then have "classification res = Contradiction"
    using cls by (simp add: classify_eq)
  with res ast all show ?thesis by blast
qed

lemma DEFAULT_SETTINGS_simps [simp]:
  "negationHandling DEFAULT_SETTINGS = preserve"
  "rowOrder DEFAULT_SETTINGS = ascending"
  "showSubExpressions DEFAULT_SETTINGS = True"
  by (simp_all add: DEFAULT_SETTINGS_def)

lemma bitAt_eq: "bitAt v k = odd (v div 2 ^ (k mod 32))"
  by (simp add: bitAt_def drop_bit_eq_div and_one_eq mod_2_eq_odd)

lemmas row_eval = buildRow_def rowContext_def bitAt_eq finalColumns_def varColumns_def
  stepColumns_def resultColumn_def evaluateColumn_def findNode_def addSubExpression_def
  obj_set_def obj_get_def precedes_def arrayIndex_def digitsValue_def formatLabel_def
  Let_def upt_rec [of _ "numeral _"] upt_rec [of _ "Suc _"]

lemma pq_parse: "parse (tokenize toUpperCaseASCII (js ''P&Q'')) =
  BinNode 2 C_AND (VarNode 0 [80] [80] 0) (VarNode 1 [81] [81] 0) [80, 32, 8743, 32, 81] 1"
  by (simp add: token_eval) (simp add: parse_eval js_def char_defs)

lemma pq_rows:
  "map (buildRow (BinNode 2 C_AND (VarNode 0 [80] [80] 0) (VarNode 1 [81] [81] 0) [80, 32, 8743, 32, 81] 1) [[80], [81]] DEFAULT_SETTINGS) [0..<2 ^ length [[80::nat], [81]]]
   = [\<lparr>rowId = 0, rowIndex = 0, vals = [([80], False), ([81], False), ([80, 32, 8743, 32, 81], False)]\<rparr>,
      \<lparr>rowId = 1, rowIndex = 1, vals = [([80], False), ([81], True), ([80, 32, 8743, 32, 81], False)]\<rparr>,
      \<lparr>rowId = 2, rowIndex = 2, vals = [([80], True), ([81], False), ([80, 32, 8743, 32, 81], False)]\<rparr>,
      \<lparr>rowId = 3, rowIndex = 3, vals = [([80], True), ([81], True), ([80, 32, 8743, 32, 81], True)]\<rparr>]"
  by (simp add: row_eval js_def char_defs)

lemma exampleAnalysis_genuine:
  "analyzeLogic toUpperCaseASCII (js ''P'') [js ''P''] DEFAULT_SETTINGS = Inr exampleAnalysis"
proof -
  have p: "parse (tokenize toUpperCaseASCII (js ''P'')) = VarNode 0 [80] [80] 0"
    by (simp add: token_eval) (simp add: parse_eval js_def char_defs)
  have u: "extractVariablesFromExpression toUpperCaseASCII (js ''P'') = [[80]]"
    by (simp add: extractVariablesFromExpression_def token_eval set_add_def)
  have r: "map (buildRow (VarNode 0 [80] [80] 0) [[80]] DEFAULT_SETTINGS) [0..<2]
      = [\<lparr>rowId = 0, rowIndex = 0, vals = [([80], False)]\<rparr>,
         \<lparr>rowId = 1, rowIndex = 1, vals = [([80], True)]\<rparr>]"
    by (simp add: row_eval js_def char_defs)
  show ?thesis
    unfolding analyzeLogic_def p u Let_def
    apply (simp only: js_def list.map of_char_Char)
    apply (simp add: r exampleAnalysis_def generateKMap_def classify_def obj_get_def truthy_def
        performSTTT_def showNat.simps js_def formatLabel_def
        finalColumns_def varColumns_def stepColumns_def resultColumn_def addSubExpression_def)
    done
qed

text \<open>
  C3 as stated fails: on an empty list of rows \<open>reanalyzeFromRows\<close> classifies as
  \<open>Contradiction\<close>, although every row's root value is true as well as false.
\<close>

theorem reanalyze_empty_rows:
  "reanalyzeFromRows exampleAnalysis [] DEFAULT_SETTINGS = Inr emptiedAnalysis
   \<and> \<not> consistentClassification (expression (ast emptiedAnalysis)) (rows emptiedAnalysis)
         (classification emptiedAnalysis)"
  by (simp add: reanalyzeFromRows_def Let_def classify_def generateKMap_def performSTTT_def
      exampleAnalysis_def emptiedAnalysis_def consistentClassification_def js_def)

lemma singleton_list: "set xs = {x} \<Longrightarrow> distinct xs \<Longrightarrow> xs = [x]"
proof (cases xs)
  case Nil
  assume "set xs = {x}"
  with Nil show ?thesis by simp
next
  case (Cons y ys)
  assume a: "set xs = {x}" "distinct xs"
  with Cons have "y = x" "set ys \<subseteq> {x}" "y \<notin> set ys" by auto
  then have "set ys = {}" by (auto simp: subset_singleton_iff)
  then have "ys = []" by simp
  with Cons \<open>y = x\<close> show ?thesis by simp
qed

lemma pq_tokens: "tokenize toUpperCaseASCII (js ''P&Q'') =
  [\<lparr>ttype = T_VAR, tvalue = [80]\<rparr>, \<lparr>ttype = T_AND, tvalue = [8743]\<rparr>,
   \<lparr>ttype = T_VAR, tvalue = [81]\<rparr>, \<lparr>ttype = T_EOF, tvalue = []\<rparr>]"
  by (simp add: token_eval)

text \<open>
  C3, an instance: \<open>P&Q\<close> with \<open>P\<close> and \<open>Q\<close> declared is a contingency, also after
  \<open>reanalyzeFromRows\<close> on its own rows.
\<close>

theorem classification_consistent_witness:
  "\<exists>res res'. analyzeLogic toUpperCaseASCII (js ''P&Q'') [js ''P'', js ''Q''] DEFAULT_SETTINGS = Inr res
     \<and> rows res \<noteq> []
     \<and> classification res = Contingency
     \<and> reanalyzeFromRows res (rows res) DEFAULT_SETTINGS = Inr res'
     \<and> classification res' = Contingency"
proof -
  let ?vs = "[js ''P'', js ''Q'']"
  let ?e = "[80, 32, 8743, 32, 81]"
  have "offending toUpperCaseASCII (js ''P&Q'') ?vs = {}"
    unfolding offending_def pq_tokens by (auto simp: js_def)
  then have "undeclaredVariables toUpperCaseASCII (js ''P&Q'') ?vs = []"
    using undeclaredVariables_props(1) [of toUpperCaseASCII "js ''P&Q''" ?vs] by simp
  from analyzeLogic_result [OF this, of DEFAULT_SETTINGS]
  obtain res where res: "analyzeLogic toUpperCaseASCII (js ''P&Q'') ?vs DEFAULT_SETTINGS = Inr res"
    and ast: "ast res = parse (tokenize toUpperCaseASCII (js ''P&Q''))"
    and rows: "rows res = map (buildRow (parse (tokenize toUpperCaseASCII (js ''P&Q''))) ?vs
                                DEFAULT_SETTINGS) [0..<2 ^ length ?vs]"
    by blast
  obtain km where km: "generateKMap (variables res) (rows res) = Inr km"
    using generateKMap_no_error by blast
  define res' where "res' = res\<lparr>rows := rows res,
      classification := classify (expression (ast res)) (rows res), kMapData := km,
      sttt := performSTTT (rows res) (expression (ast res))
                (classify (expression (ast res)) (rows res))\<rparr>"
  have re: "reanalyzeFromRows res (rows res) DEFAULT_SETTINGS = Inr res'"
    using km by (simp add: reanalyzeFromRows_def Let_def res'_def)
  have e: "expression (ast res) = ?e" using ast by (simp add: pq_parse)
  have rs: "rows res =
     [\<lparr>rowId = 0, rowIndex = 0, vals = [([80], False), ([81], False), (?e, False)]\<rparr>,
      \<lparr>rowId = 1, rowIndex = 1, vals = [([80], False), ([81], True), (?e, False)]\<rparr>,
      \<lparr>rowId = 2, rowIndex = 2, vals = [([80], True), ([81], False), (?e, False)]\<rparr>,
      \<lparr>rowId = 3, rowIndex = 3, vals = [([80], True), ([81], True), (?e, True)]\<rparr>]"
    unfolding rows pq_parse using pq_rows by (simp add: js_def)
  note th = classification_consistent
    [of toUpperCaseASCII "js ''P&Q''" ?vs DEFAULT_SETTINGS res res "rows res" res']
  from th res have ne: "rows res \<noteq> []"
    and c1: "consistentClassification (expression (ast res)) (rows res) (classification res)"
    by auto
  from th re ne have r': "rows res' = rows res" "ast res' = ast res"
    and c2: "consistentClassification (expression (ast res')) (rows res') (classification res')"
    by auto
  have mixed: "\<not> (\<forall>row \<in> set (rows res). rootValue ?e row)"
    "\<not> (\<forall>row \<in> set (rows res). \<not> rootValue ?e row)"
    unfolding rs by (simp_all add: rootValue_def truthy_def obj_get_def)
  from c1 mixed e have "classification res = Contingency"
    by (simp add: consistentClassification_def)
  moreover from c2 mixed e r' have "classification res' = Contingency"
    by (simp add: consistentClassification_def)
  ultimately show ?thesis using res ne re by blast
qed

lemma empty_tokens: "tokenize toUpperCaseASCII (js ''# '') = [\<lparr>ttype = T_EOF, tvalue = []\<rparr>]"
  by (simp add: token_eval)

text \<open>
  C9, an instance: an input of one unrecognized character and a space, with \<open>A\<close> declared.
\<close>

theorem no_tokens_contradiction_witness:
  "tokenize toUpperCaseASCII (js ''# '') = [\<lparr>ttype = T_EOF, tvalue = []\<rparr>]
   \<and> js ''?'' \<notin> set [js ''A'']
   \<and> (\<exists>res. analyzeLogic toUpperCaseASCII (js ''# '') [js ''A''] DEFAULT_SETTINGS = Inr res
          \<and> ast res = VarNode 0 (js ''?'') (js ''?'') 0
          \<and> classification res = Contradiction)"
proof -
  have q: "js ''?'' \<notin> set [js ''A'']" by (simp add: js_def)
  from no_tokens_contradiction [OF empty_tokens q, of DEFAULT_SETTINGS]
  show ?thesis using empty_tokens q by blast
qed

text \<open>
  C9 as stated fails: with the declared variable \<open>?\<close> the empty input is classified as
  \<open>Contingency\<close>, the placeholder node being evaluated as that variable.
\<close>

theorem placeholder_declared_contingency:
  "tokenize toUpperCaseASCII [] = [\<lparr>ttype = T_EOF, tvalue = []\<rparr>]
   \<and> map_sum id classification (analyzeLogic toUpperCaseASCII [] [js ''?''] DEFAULT_SETTINGS)
       = Inr Contingency"
proof -
  let ?root = "VarNode 0 [63] [63] 0"
  have t: "tokenize toUpperCaseASCII [] = [\<lparr>ttype = T_EOF, tvalue = []\<rparr>]"
    by (simp add: token_eval)
  then have p: "parse (tokenize toUpperCaseASCII []) = ?root"
    by (simp add: parse_no_tokens js_def)
  have "offending toUpperCaseASCII [] [js ''?''] = {}"
    unfolding offending_def t by simp
  then have "undeclaredVariables toUpperCaseASCII [] [js ''?''] = []"
    using undeclaredVariables_props(1) [of toUpperCaseASCII "[]" "[js ''?'']"] by simp
  from analyzeLogic_result [OF this, of DEFAULT_SETTINGS]
  obtain res where res: "analyzeLogic toUpperCaseASCII [] [js ''?''] DEFAULT_SETTINGS = Inr res"
    and rows: "rows res = map (buildRow (parse (tokenize toUpperCaseASCII [])) [js ''?'']
                                DEFAULT_SETTINGS) [0..<2 ^ length [js ''?'']]"
    and cls: "classification res
                = classify (expression (parse (tokenize toUpperCaseASCII []))) (rows res)"
    by blast
  have "rows res = [\<lparr>rowId = 0, rowIndex = 0, vals = [([63], False)]\<rparr>,
                    \<lparr>rowId = 1, rowIndex = 1, vals = [([63], True)]\<rparr>]"
    unfolding rows p by (simp add: row_eval js_def)
  then have "classification res = Contingency"
    unfolding cls p by (simp add: classify_def obj_get_def truthy_def)
  with res t show ?thesis by simp
qed


section \<open>Properties of recalculating a row\<close>

subsection \<open>Recalculating a row\<close>

lemma inputContext_agree:
  assumes "\<forall>c \<in> set cols. isInput c \<longrightarrow> obj_get v1 (colExpression c) = obj_get v2 (colExpression c)"
  shows "inputContext cols v1 = inputContext cols v2"
proof -
  have "fold (\<lambda>c ctx. ctx(colExpression c := obj_get v1 (colExpression c))) cs m
      = fold (\<lambda>c ctx. ctx(colExpression c := obj_get v2 (colExpression c))) cs m"
    if "\<forall>c \<in> set cs. obj_get v1 (colExpression c) = obj_get v2 (colExpression c)" for cs m
    using that by (induction cs arbitrary: m) auto
  from this [of "filter isInput cols" Map.empty] assms show ?thesis
    by (simp add: inputContext_def)
qed

lemma recalculateColumn_agree:
  assumes "agreeOn K v1 v2" and "resolvable root col"
  shows "agreeOn (if isInput col then K else insert (colExpression col) K)
           (recalculateColumn root (extractSubExpressions root []) ctx col v1)
           (recalculateColumn root (extractSubExpressions root []) ctx col v2)"
proof (cases "isInput col")
  case True
  with assms(1) show ?thesis by (simp add: recalculateColumn_def)
next
  case False
  show ?thesis
  proof (cases "findNode (astId col) (extractSubExpressions root [])")
    case None
    with False assms(2) have "astId col = Some (nodeId root)" by (simp add: resolvable_def)
    with None False assms(1) show ?thesis
      by (auto simp: recalculateColumn_def agreeOn_def obj_get_set)
  next
    case (Some node)
    with False assms(1) show ?thesis
      by (auto simp: recalculateColumn_def agreeOn_def obj_get_set)
  qed
qed

lemma recalculate_fold_agree:
  assumes "agreeOn K v1 v2" and "\<forall>c \<in> set cols. resolvable root c"
  shows "agreeOn (K \<union> {colExpression c |c. c \<in> set cols \<and> \<not> isInput c})
           (fold (recalculateColumn root (extractSubExpressions root []) ctx) cols v1)
           (fold (recalculateColumn root (extractSubExpressions root []) ctx) cols v2)"
  using assms
proof (induction cols arbitrary: K v1 v2)
  case Nil
  then show ?case by simp
next
  case (Cons col cols)
  let ?step = "recalculateColumn root (extractSubExpressions root []) ctx col"
  let ?K = "if isInput col then K else insert (colExpression col) K"
  from Cons.prems have "agreeOn ?K (?step v1) (?step v2)"
    by (intro recalculateColumn_agree) auto
  from Cons.IH [OF this] Cons.prems(2)
  have "agreeOn (?K \<union> {colExpression c |c. c \<in> set cols \<and> \<not> isInput c})
          (fold (recalculateColumn root (extractSubExpressions root []) ctx) cols (?step v1))
          (fold (recalculateColumn root (extractSubExpressions root []) ctx) cols (?step v2))"
    by simp
  moreover have "K \<union> {colExpression c |c. c \<in> set (col # cols) \<and> \<not> isInput c}
                 \<subseteq> ?K \<union> {colExpression c |c. c \<in> set cols \<and> \<not> isInput c}"
    by auto
  ultimately show ?case by (auto simp: agreeOn_def)
qed

lemma findNode_member:
  "n \<in> set nodes \<Longrightarrow> \<exists>y. findNode (Some (nodeId n)) nodes = Some y"
  by (cases "findNode (Some (nodeId n)) nodes") (auto simp: findNode_def find_None_iff)

lemma finalColumns_resolvable:
  "\<forall>c \<in> set (finalColumns root vs settings). resolvable root c"
  by (auto simp: finalColumns_def varColumns_def stepColumns_def resultColumn_def resolvable_def
      findNode_member)

text \<open>
  C10.  For a result of \<open>analyzeLogic\<close>, with its tree and its columns: when two rows have
  the same value (or both none) under the expression of every input column,
  \<open>recalculateRow\<close> returns rows with the same value under the expression of every column,
  whatever the two rows held under the other keys.
\<close>

theorem recalculateRow_inputs_only:
  assumes "analyzeLogic up expr vs settings = Inr res"
    and "\<forall>c \<in> set (columns res). isInput c \<longrightarrow>
           obj_get (vals row1) (colExpression c) = obj_get (vals row2) (colExpression c)"
  shows "\<forall>c \<in> set (columns res).
           obj_get (vals (recalculateRow row1 (columns res) (ast res))) (colExpression c)
           = obj_get (vals (recalculateRow row2 (columns res) (ast res))) (colExpression c)"
proof -
  from assms(1) have "undeclaredVariables up expr vs = []" by (rule analyzeLogic_cases(1))
  from analyzeLogic_result [OF this, of settings] assms(1)
  have cols: "columns res = finalColumns (ast res) vs settings" by auto
  let ?K = "{colExpression c |c. c \<in> set (columns res) \<and> isInput c}"
  have ctx: "inputContext (columns res) (vals row1) = inputContext (columns res) (vals row2)"
    using assms(2) by (rule inputContext_agree)
  have "agreeOn ?K (vals row1) (vals row2)"
    using assms(2) by (auto simp: agreeOn_def)
  moreover have "\<forall>c \<in> set (columns res). resolvable (ast res) c"
    unfolding cols by (rule finalColumns_resolvable)
  ultimately have "agreeOn (?K \<union> {colExpression c |c. c \<in> set (columns res) \<and> \<not> isInput c})
      (fold (recalculateColumn (ast res) (extractSubExpressions (ast res) [])
               (inputContext (columns res) (vals row1))) (columns res) (vals row1))
      (fold (recalculateColumn (ast res) (extractSubExpressions (ast res) [])
               (inputContext (columns res) (vals row1))) (columns res) (vals row2))"
    by (rule recalculate_fold_agree)
  then show ?thesis
    using ctx by (auto simp: recalculateRow_def Let_def agreeOn_def)
qed

text \<open>
  C10, an instance: for \<open>P&Q\<close>, two rows with \<open>P\<close> and \<open>Q\<close> true that differ in the value
  stored for the conjunction are recalculated to the same value.
\<close>

theorem recalculateRow_inputs_only_witness:
  "\<exists>res. analyzeLogic toUpperCaseASCII (js ''P&Q'') [js ''P'', js ''Q''] DEFAULT_SETTINGS = Inr res
     \<and> obj_get (vals staleRow) (js ''P'') = obj_get (vals exampleRow) (js ''P'')
     \<and> obj_get (vals staleRow) (js ''Q'') = obj_get (vals exampleRow) (js ''Q'')
     \<and> obj_get (vals staleRow) (expression (ast res)) = Some False
     \<and> obj_get (vals exampleRow) (expression (ast res)) = Some True
     \<and> obj_get (vals (recalculateRow staleRow (columns res) (ast res))) (expression (ast res))
         = obj_get (vals (recalculateRow exampleRow (columns res) (ast res))) (expression (ast res))"
proof -
  let ?vs = "[js ''P'', js ''Q'']"
  let ?root = "BinNode 2 C_AND (VarNode 0 [80] [80] 0) (VarNode 1 [81] [81] 0)
                 [80, 32, 8743, 32, 81] 1"
  have "offending toUpperCaseASCII (js ''P&Q'') ?vs = {}"
    unfolding offending_def pq_tokens by (auto simp: js_def)
  then have "undeclaredVariables toUpperCaseASCII (js ''P&Q'') ?vs = []"
    using undeclaredVariables_props(1) [of toUpperCaseASCII "js ''P&Q''" ?vs] by simp
  from analyzeLogic_result [OF this, of DEFAULT_SETTINGS]
  obtain res where res: "analyzeLogic toUpperCaseASCII (js ''P&Q'') ?vs DEFAULT_SETTINGS = Inr res"
    and ast: "ast res = ?root"
    and cols: "columns res = finalColumns ?root ?vs DEFAULT_SETTINGS"
    unfolding pq_parse by blast
  have shape: "map (\<lambda>c. (colExpression c, isInput c)) (columns res)
                 = [([80], True), ([81], True), ([80, 32, 8743, 32, 81], False)]"
    unfolding cols
    by (simp add: finalColumns_def varColumns_def stepColumns_def resultColumn_def
        addSubExpression_def js_def)
  have colExprs: "map colExpression (columns res) = [[80], [81], [80, 32, 8743, 32, 81]]"
    using arg_cong [OF shape, of "map fst"] by (simp add: comp_def)
  have p: "obj_get (vals staleRow) (js ''P'') = obj_get (vals exampleRow) (js ''P'')"
    and q: "obj_get (vals staleRow) (js ''Q'') = obj_get (vals exampleRow) (js ''Q'')"
    and e1: "obj_get (vals staleRow) (expression (ast res)) = Some False"
    and e2: "obj_get (vals exampleRow) (expression (ast res)) = Some True"
    by (simp_all add: ast staleRow_def exampleRow_def obj_get_def js_def char_defs)
  have hyp: "\<forall>c \<in> set (columns res). isInput c \<longrightarrow>
           obj_get (vals staleRow) (colExpression c) = obj_get (vals exampleRow) (colExpression c)"
  proof (intro ballI impI)
    fix c
    assume c: "c \<in> set (columns res)" "isInput c"
    then have "(colExpression c, isInput c)
                 \<in> set (map (\<lambda>c. (colExpression c, isInput c)) (columns res))"
      by (intro imageI [of c, THEN set_map [THEN equalityD2, THEN subsetD]])
    with c(2) have "colExpression c = [80] \<or> colExpression c = [81]"
      unfolding shape by auto
    with p q show "obj_get (vals staleRow) (colExpression c)
                    = obj_get (vals exampleRow) (colExpression c)"
      by (auto simp: js_def)
  qed
  have "expression (ast res) \<in> set (map colExpression (columns res))"
    unfolding colExprs ast by simp
  then obtain c where "c \<in> set (columns res)" "colExpression c = expression (ast res)"
    by auto
  with recalculateRow_inputs_only [OF res hyp]
  have "obj_get (vals (recalculateRow staleRow (columns res) (ast res))) (expression (ast res))
      = obj_get (vals (recalculateRow exampleRow (columns res) (ast res))) (expression (ast res))"
    by metis
  with res p q e1 e2 show ?thesis by blast
qed


section \<open>The RightAway engine and the implication forms on given inputs\<close>

lemma bug_parse:
  "parse (tokenize toUpperCaseASCII (js ''~A|B->~[A|B)'')) =
     BinNode 8 C_IMPLIES
       (BinNode 3 C_OR (NotNode 1 (VarNode 0 [65] [65] 0) [172, 65] 1)
          (VarNode 2 [66] [66] 0) [172, 65, 32, 8744, 32, 66] 2)
       (NotNode 7
          (BinNode 6 C_OR (VarNode 4 [65] [65] 0) (VarNode 5 [66] [66] 0)
             [65, 32, 8744, 32, 66] 1)
          [172, 65, 32, 8744, 32, 66] 2)
       [172, 65, 32, 8744, 32, 66, 32, 8594, 32, 172, 65, 32, 8744, 32, 66] 3"
  by (simp add: token_eval) (simp add: parse_eval js_def char_defs)

text \<open>
  C1 fails on the code.  For the expression \<open>~A|B->~[A|B)\<close> with \<open>A\<close> and \<open>B\<close> declared,
  the bracket is closed by the wrong character, so the negated disjunction keeps the
  expression string of its operand without brackets; both sides of the implication then
  have the same expression string, the RightAway engine answers true, and the enumeration
  of the rows classifies the expression as a contingency.
\<close>

theorem rightAway_disagrees_with_enumeration:
  "map_sum id rightAway
     (analyzeLogic toUpperCaseASCII (js ''~A|B->~[A|B)'') [js ''A'', js ''B''] DEFAULT_SETTINGS)
     = Inr (Some \<lparr>isApplicable = True, resultValue = Some True,
                   explanation = js ''Self-implication or Equivalence is always True.''\<rparr>)
   \<and> map_sum id classification
     (analyzeLogic toUpperCaseASCII (js ''~A|B->~[A|B)'') [js ''A'', js ''B''] DEFAULT_SETTINGS)
     = Inr Contingency"
proof -
  let ?in = "js ''~A|B->~[A|B)''"
  let ?vs = "[js ''A'', js ''B'']"
  let ?root = "parse (tokenize toUpperCaseASCII ?in)"
  have toks: "tokenize toUpperCaseASCII ?in =
     [\<lparr>ttype = T_NOT, tvalue = [172]\<rparr>, \<lparr>ttype = T_VAR, tvalue = [65]\<rparr>,
      \<lparr>ttype = T_OR, tvalue = [8744]\<rparr>, \<lparr>ttype = T_VAR, tvalue = [66]\<rparr>,
      \<lparr>ttype = T_IMPLIES, tvalue = [8594]\<rparr>, \<lparr>ttype = T_NOT, tvalue = [172]\<rparr>,
      \<lparr>ttype = T_LBRACKET, tvalue = [91]\<rparr>, \<lparr>ttype = T_VAR, tvalue = [65]\<rparr>,
      \<lparr>ttype = T_OR, tvalue = [8744]\<rparr>, \<lparr>ttype = T_VAR, tvalue = [66]\<rparr>,
      \<lparr>ttype = T_RPAREN, tvalue = [41]\<rparr>, \<lparr>ttype = T_EOF, tvalue = []\<rparr>]"
    by (simp add: token_eval)
  have "offending toUpperCaseASCII ?in ?vs = {}"
    unfolding offending_def toks by (auto simp: js_def)
  then have "undeclaredVariables toUpperCaseASCII ?in ?vs = []"
    using undeclaredVariables_props(1) [of toUpperCaseASCII ?in ?vs] by simp
  from analyzeLogic_result [OF this, of DEFAULT_SETTINGS]
  obtain res where res: "analyzeLogic toUpperCaseASCII ?in ?vs DEFAULT_SETTINGS = Inr res"
    and rows: "rows res = map (buildRow ?root ?vs DEFAULT_SETTINGS) [0..<2 ^ length ?vs]"
    and cls: "classification res = classify (expression ?root) (rows res)"
    and ra: "rightAway res = analyzeRightAwayEngine ?root"
    by blast
  have "rightAway res = Some \<lparr>isApplicable = True, resultValue = Some True,
                   explanation = js ''Self-implication or Equivalence is always True.''\<rparr>"
    unfolding ra bug_parse by (simp add: rightAwayResult_def)
  moreover have "map (\<lambda>row. obj_get (vals row) (expression ?root)) (rows res)
                   = [Some True, Some False, Some True, Some False]"
    unfolding rows bug_parse by (simp add: row_eval js_def)
  then have "classification res = Contingency"
    unfolding cls by (auto simp: classify_eq rootValue_def truthy_def)
  ultimately show ?thesis using res by simp
qed

text \<open>Implication forms are produced for a root of type \<open>IMPLIES\<close> only.\<close>

lemma generateImplicationForms_root:
  "generateImplicationForms node = Some forms \<Longrightarrow> nodeType node = N_IMPLIES"
  by (cases node) (auto split: if_splits)

text \<open>
  C7 fails on the code.  For the expression \<open>(A)|(B)->C\<close>, \<open>clean\<close> strips the first and the
  last character of the antecedent's string although they do not match each other; the
  contrapositive string then parses as another formula, which is true where the implication
  is false (\<open>A\<close> false, \<open>B\<close> true, \<open>C\<close> false).
\<close>

theorem contrapositive_not_equivalent:
  "map_option contrapositive
     (generateImplicationForms (parse (tokenize toUpperCaseASCII (js ''(A)|(B)->C''))))
     = Some exampleContrapositive
   \<and> evaluateAST (parse (tokenize toUpperCaseASCII (js ''(A)|(B)->C'')))
       [js ''A'' \<mapsto> False, js ''B'' \<mapsto> True, js ''C'' \<mapsto> False] = False
   \<and> evaluateRawExpression toUpperCaseASCII exampleContrapositive
       [js ''A'' \<mapsto> False, js ''B'' \<mapsto> True, js ''C'' \<mapsto> False] = True"
proof -
  have p: "parse (tokenize toUpperCaseASCII (js ''(A)|(B)->C'')) =
     BinNode 4 C_IMPLIES
       (BinNode 2 C_OR (VarNode 0 [65] [40, 65, 41] 0) (VarNode 1 [66] [40, 66, 41] 0)
          [40, 65, 41, 32, 8744, 32, 40, 66, 41] 1)
       (VarNode 3 [67] [67] 0)
       [40, 65, 41, 32, 8744, 32, 40, 66, 41, 32, 8594, 32, 67] 2"
    by (simp add: token_eval) (simp add: parse_eval js_def char_defs)
  have c: "exampleContrapositive
      = [172, 40, 67, 41, 32, 8594, 32, 172, 40, 65, 41, 32, 8744, 32, 40, 66, 41]"
    by (simp add: exampleContrapositive_def js_def char_defs)
  have q: "parse (tokenize toUpperCaseASCII exampleContrapositive) =
     BinNode 6 C_IMPLIES
       (NotNode 1 (VarNode 0 [67] [40, 67, 41] 0) [172, 40, 67, 41] 1)
       (BinNode 5 C_OR
          (NotNode 3 (VarNode 2 [65] [40, 65, 41] 0) [172, 40, 65, 41] 1)
          (VarNode 4 [66] [40, 66, 41] 0)
          [172, 40, 65, 41, 32, 8744, 32, 40, 66, 41] 2)
       [172, 40, 67, 41, 32, 8594, 32, 172, 40, 65, 41, 32, 8744, 32, 40, 66, 41] 3"
    unfolding c by (simp add: token_eval) (simp add: parse_eval js_def char_defs)
  show ?thesis
    unfolding evaluateRawExpression_def q p
    by (simp add: c clean_def startsWith_def endsWith_def js_def char_defs Let_def)
qed


section \<open>Properties of the rows\<close>

subsection \<open>Well-formed trees\<close>

lemma idsBelow_mono: "idsBelow c node \<Longrightarrow> c \<le> c' \<Longrightarrow> idsBelow c' node"
  by (induction node) auto

lemma nodeOk_mono: "nodeOk c node \<Longrightarrow> c \<le> c' \<Longrightarrow> nodeOk c' node"
  by (auto simp: nodeOk_def intro: idsBelow_mono)

lemma expression_nonempty: "wfShape node \<Longrightarrow> expression node \<noteq> []"
  by (cases node) auto

lemma peek_tokensOk:
  "tokensOk (tokens p) \<Longrightarrow> ttype (peek p) \<noteq> T_EOF \<Longrightarrow> length (tvalue (peek p)) = 1"
  by (auto simp: tokensOk_def peek_def split: if_splits)

lemma tokens_consume [simp]: "tokens (snd (consume p)) = tokens p"
  by (simp add: consume_def)

lemma counter_consume [simp]: "nodeIdCounter (snd (consume p)) = nodeIdCounter p"
  by (simp add: consume_def)

lemma mkBinary_ok:
  assumes "nodeOk (nodeIdCounter p) l" "nodeOk (nodeIdCounter p) r"
  shows "tokens (snd (mkBinary t s l r p)) = tokens p
       \<and> nodeIdCounter (snd (mkBinary t s l r p)) = Suc (nodeIdCounter p)
       \<and> nodeOk (Suc (nodeIdCounter p)) (fst (mkBinary t s l r p))"
  using assms
  by (auto simp: mkBinary_def generateId_def nodeOk_def js_def intro: idsBelow_mono)

lemma setExpression_ok:
  "nodeOk c node \<Longrightarrow> 2 \<le> length e' \<Longrightarrow> nodeOk c (setExpression node e')"
  by (cases node) (auto simp: nodeOk_def)

lemma loop_ok:
  assumes l: "nodeOk (nodeIdCounter p) l"
    and r: "parsesOk (snd (consume p)) (r, p2)"
    and b: "mkBinary t s l r p2 = (l', p3)"
    and rest: "nodeOk (nodeIdCounter p3) l' \<Longrightarrow> tokensOk (tokens p3) \<Longrightarrow> parsesOk p3 res"
    and tk: "tokensOk (tokens p)"
  shows "parsesOk p res"
proof -
  from r have t2: "tokens p2 = tokens p" and c2: "nodeIdCounter p \<le> nodeIdCounter p2"
    and rok: "nodeOk (nodeIdCounter p2) r" by (auto simp: parsesOk_def)
  from l c2 have "nodeOk (nodeIdCounter p2) l" by (rule nodeOk_mono)
  from mkBinary_ok [OF this rok, of t s] b
  have t3: "tokens p3 = tokens p2" and c3: "nodeIdCounter p3 = Suc (nodeIdCounter p2)"
    and lok: "nodeOk (nodeIdCounter p3) l'" by auto
  from rest [OF lok] tk t2 t3 have "parsesOk p3 res" by simp
  with t2 t3 c2 c3 show ?thesis by (auto simp: parsesOk_def)
qed

lemma chain_ok:
  assumes "parsesOk p (l, p1)"
    and "nodeOk (nodeIdCounter p1) l \<Longrightarrow> tokensOk (tokens p1) \<Longrightarrow> parsesOk p1 res"
    and "tokensOk (tokens p)"
  shows "parsesOk p res"
  using assms by (auto simp: parsesOk_def)

lemma parse_ok:
  "tokensOk (tokens p) \<Longrightarrow> parsesOk p (parseIFF p)"
  "tokensOk (tokens p) \<Longrightarrow> nodeOk (nodeIdCounter p) l \<Longrightarrow> parsesOk p (parseIFF_loop l p)"
  "tokensOk (tokens p) \<Longrightarrow> parsesOk p (parseImplies p)"
  "tokensOk (tokens p) \<Longrightarrow> nodeOk (nodeIdCounter p) l \<Longrightarrow> parsesOk p (parseImplies_loop l p)"
  "tokensOk (tokens p) \<Longrightarrow> parsesOk p (parseXor p)"
  "tokensOk (tokens p) \<Longrightarrow> nodeOk (nodeIdCounter p) l \<Longrightarrow> parsesOk p (parseXor_loop l p)"
  "tokensOk (tokens p) \<Longrightarrow> parsesOk p (parseOr p)"
  "tokensOk (tokens p) \<Longrightarrow> nodeOk (nodeIdCounter p) l \<Longrightarrow> parsesOk p (parseOr_loop l p)"
  "tokensOk (tokens p) \<Longrightarrow> parsesOk p (parseAnd p)"
  "tokensOk (tokens p) \<Longrightarrow> nodeOk (nodeIdCounter p) l \<Longrightarrow> parsesOk p (parseAnd_loop l p)"
  "tokensOk (tokens p) \<Longrightarrow> parsesOk p (parseNot p)"
  "tokensOk (tokens p) \<Longrightarrow> parsesOk p (parseFactor p)"
proof (induct rule: parseIFF_parseIFF_loop_parseImplies_parseImplies_loop_parseXor_parseXor_loop_parseOr_parseOr_loop_parseAnd_parseAnd_loop_parseNot_parseFactor.induct)
  case (1 p)
  obtain l p1 where a: "parseImplies p = (l, p1)" by (cases "parseImplies p")
  from 1(1) [OF 1(3)] a have first: "parsesOk p (l, p1)" by simp
  have "parsesOk p (parseIFF_loop l p1)"
    using first 1(2) [OF a [symmetric]] 1(3) by (rule chain_ok)
  then show ?case using a by (simp add: parseIFF.simps)
next
  case (2 l p)
  show ?case
  proof (cases "ttype (peek p) = T_IFF")
    case True
    obtain r p2 where a: "parseImplies (snd (consume p)) = (r, p2)"
      by (cases "parseImplies (snd (consume p))")
    obtain l' p3 where b: "mkBinary C_IFF [c_iff] l r p2 = (l', p3)"
      by (cases "mkBinary C_IFF [c_iff] l r p2")
    from 2(1) [OF True] 2(3) a have r: "parsesOk (snd (consume p)) (r, p2)" by simp
    have "parsesOk p (parseIFF_loop l' p3)"
      using 2(4) r b 2(2) [OF True a [symmetric] b [symmetric]] 2(3)
      by (rule loop_ok)
    then show ?thesis using True a b by (simp add: parseIFF_loop.simps)
  next
    case False
    then show ?thesis using 2(4) by (simp add: parseIFF_loop.simps parsesOk_def)
  qed
next
  case (3 p)
  obtain l p1 where a: "parseXor p = (l, p1)" by (cases "parseXor p")
  from 3(1) [OF 3(3)] a have first: "parsesOk p (l, p1)" by simp
  have "parsesOk p (parseImplies_loop l p1)"
    using first 3(2) [OF a [symmetric]] 3(3) by (rule chain_ok)
  then show ?case using a by (simp add: parseImplies.simps)
next
  case (4 l p)
  show ?case
  proof (cases "ttype (peek p) = T_IMPLIES")
    case True
    obtain r p2 where a: "parseXor (snd (consume p)) = (r, p2)"
      by (cases "parseXor (snd (consume p))")
    obtain l' p3 where b: "mkBinary C_IMPLIES [c_implies] l r p2 = (l', p3)"
      by (cases "mkBinary C_IMPLIES [c_implies] l r p2")
    from 4(1) [OF True] 4(3) a have r: "parsesOk (snd (consume p)) (r, p2)" by simp
    have "parsesOk p (parseImplies_loop l' p3)"
      using 4(4) r b 4(2) [OF True a [symmetric] b [symmetric]] 4(3)
      by (rule loop_ok)
    then show ?thesis using True a b by (simp add: parseImplies_loop.simps)
  next
    case False
    then show ?thesis using 4(4) by (simp add: parseImplies_loop.simps parsesOk_def)
  qed
next
  case (5 p)
  obtain l p1 where a: "parseOr p = (l, p1)" by (cases "parseOr p")
  from 5(1) [OF 5(3)] a have first: "parsesOk p (l, p1)" by simp
  have "parsesOk p (parseXor_loop l p1)"
    using first 5(2) [OF a [symmetric]] 5(3) by (rule chain_ok)
  then show ?case using a by (simp add: parseXor.simps)
next
  case (6 l p)
  show ?case
  proof (cases "ttype (peek p) = T_XOR")
    case True
    obtain r p2 where a: "parseOr (snd (consume p)) = (r, p2)"
      by (cases "parseOr (snd (consume p))")
    obtain l' p3 where b: "mkBinary C_XOR [c_xor] l r p2 = (l', p3)"
      by (cases "mkBinary C_XOR [c_xor] l r p2")
    from 6(1) [OF True] 6(3) a have r: "parsesOk (snd (consume p)) (r, p2)" by simp
    have "parsesOk p (parseXor_loop l' p3)"
      using 6(4) r b 6(2) [OF True a [symmetric] b [symmetric]] 6(3)
      by (rule loop_ok)
    then show ?thesis using True a b by (simp add: parseXor_loop.simps)
  next
    case False
    then show ?thesis using 6(4) by (simp add: parseXor_loop.simps parsesOk_def)
  qed
next
  case (7 p)
  obtain l p1 where a: "parseAnd p = (l, p1)" by (cases "parseAnd p")
  from 7(1) [OF 7(3)] a have first: "parsesOk p (l, p1)" by simp
  have "parsesOk p (parseOr_loop l p1)"
    using first 7(2) [OF a [symmetric]] 7(3) by (rule chain_ok)
  then show ?case using a by (simp add: parseOr.simps)
next
  case (8 l p)
  show ?case
  proof (cases "ttype (peek p) = T_OR")
    case True
    obtain r p2 where a: "parseAnd (snd (consume p)) = (r, p2)"
      by (cases "parseAnd (snd (consume p))")
    obtain l' p3 where b: "mkBinary C_OR [c_or] l r p2 = (l', p3)"
      by (cases "mkBinary C_OR [c_or] l r p2")
    from 8(1) [OF True] 8(3) a have r: "parsesOk (snd (consume p)) (r, p2)" by simp
    have "parsesOk p (parseOr_loop l' p3)"
      using 8(4) r b 8(2) [OF True a [symmetric] b [symmetric]] 8(3)
      by (rule loop_ok)
    then show ?thesis using True a b by (simp add: parseOr_loop.simps)
  next
    case False
    then show ?thesis using 8(4) by (simp add: parseOr_loop.simps parsesOk_def)
  qed
next
  case (9 p)
  obtain l p1 where a: "parseNot p = (l, p1)" by (cases "parseNot p")
  from 9(1) [OF 9(3)] a have first: "parsesOk p (l, p1)" by simp
  have "parsesOk p (parseAnd_loop l p1)"
    using first 9(2) [OF a [symmetric]] 9(3) by (rule chain_ok)
  then show ?case using a by (simp add: parseAnd.simps)
next
  case (10 l p)
  show ?case
  proof (cases "ttype (peek p) = T_AND")
    case True
    obtain r p2 where a: "parseNot (snd (consume p)) = (r, p2)"
      by (cases "parseNot (snd (consume p))")
    obtain l' p3 where b: "mkBinary C_AND [c_and] l r p2 = (l', p3)"
      by (cases "mkBinary C_AND [c_and] l r p2")
    from 10(1) [OF True] 10(3) a have r: "parsesOk (snd (consume p)) (r, p2)" by simp
    have "parsesOk p (parseAnd_loop l' p3)"
      using 10(4) r b 10(2) [OF True a [symmetric] b [symmetric]] 10(3)
      by (rule loop_ok)
    then show ?thesis using True a b by (simp add: parseAnd_loop.simps)
  next
    case False
    then show ?thesis using 10(4) by (simp add: parseAnd_loop.simps parsesOk_def)
  qed
next
  case (11 p)
  show ?case
  proof (cases "ttype (peek p) = T_NOT")
    case True
    obtain token p1 where a: "consume p = (token, p1)" by (cases "consume p")
    then have tok: "token = peek p" and p1: "p1 = snd (consume p)" by (auto simp: consume_def)
    obtain x p2 where b: "parseNot p1 = (x, p2)" by (cases "parseNot p1")
    from 11(1) [OF True a [symmetric]] 11(3) p1 b have x: "parsesOk p1 (x, p2)" by simp
    have len: "length (tvalue token) = 1"
      using peek_tokensOk [OF 11(3)] True tok by simp
    from x p1 have "tokens p2 = tokens p" "nodeIdCounter p \<le> nodeIdCounter p2"
      "nodeOk (nodeIdCounter p2) x" by (auto simp: parsesOk_def)
    then have "parsesOk p (NotNode (nodeIdCounter p2) x (tvalue token @ expression x) (depth x + 1),
                 p2\<lparr>nodeIdCounter := nodeIdCounter p2 + 1\<rparr>)"
      using len expression_nonempty [of x]
      by (cases "expression x") (auto simp: parsesOk_def nodeOk_def intro: idsBelow_mono)
    then show ?thesis using True a b by (simp add: parseNot.simps generateId_def)
  next
    case False
    then show ?thesis using 11(2) [OF False 11(3)] by (simp add: parseNot.simps)
  qed
next
  case (12 p)
  show ?case
  proof (cases "ttype (peek p) \<in> {T_LPAREN, T_LBRACKET, T_LBRACE}")
    case True
    obtain node p2 where a: "parseIFF (snd (consume p)) = (node, p2)"
      by (cases "parseIFF (snd (consume p))")
    from 12(1) [OF refl True refl refl] 12(2) a
    have inner: "parsesOk (snd (consume p)) (node, p2)" by simp
    then have ok: "tokens p2 = tokens p" "nodeIdCounter p \<le> nodeIdCounter p2"
      "nodeOk (nodeIdCounter p2) node" by (auto simp: parsesOk_def)
    have plain: "parsesOk p (node, p2)" using ok by (simp add: parsesOk_def)
    have wrapped: "parsesOk p (setExpression node (tvalue (peek p) @ expression node @ c),
                               snd (consume p2))" if "length c = 1" for c
    proof -
      from ok(3) have "expression node \<noteq> []" by (auto simp: nodeOk_def expression_nonempty)
      then have "2 \<le> length (tvalue (peek p) @ expression node @ c)"
        using that by (cases "expression node") auto
      from setExpression_ok [OF ok(3) this] ok(1,2) show ?thesis
        by (simp add: parsesOk_def)
    qed
    show ?thesis
      using True a plain wrapped [of "js '')''"] wrapped [of "js '']''"] wrapped [of "js ''}''"]
      by (auto simp: parseFactor.simps Let_def js_def)
  next
    case False
    have q: "length (js ''?'') = 1" by (simp add: js_def)
    show ?thesis
    proof (cases "ttype (peek p) = T_VAR")
      case True
      then have "length (tvalue (peek p)) = 1" using peek_tokensOk [OF 12(2)] by simp
      then show ?thesis using False True
        by (auto simp: parseFactor.simps Let_def generateId_def consume_def parsesOk_def nodeOk_def)
    next
      case notvar: False
      then show ?thesis using False q
        by (auto simp: parseFactor.simps Let_def generateId_def consume_def parsesOk_def nodeOk_def)
    qed
  qed
qed

lemma OPS_symbol_length: "map_of OPS key = Some symbol \<Longrightarrow> length symbol = 1"
  by (auto simp: OPS_def split: if_splits)

lemma scan_tokensOk: "tokensOk (scan str)"
proof (induction str rule: scan.induct)
  case 1
  show ?case by (simp add: tokensOk_def)
next
  case (2 char rest)
  show ?case
  proof (cases "matchOperator (char # rest)")
    case None
    with 2 show ?thesis
      by (auto simp: tokensOk_def js_def)
  next
    case (Some key)
    show ?thesis
    proof (cases "map_of OPS key")
      case None
      with Some 2 show ?thesis by simp
    next
      case (Some symbol)
      with \<open>matchOperator (char # rest) = Some key\<close> 2 OPS_symbol_length [OF Some]
      show ?thesis by (auto simp: tokensOk_def)
    qed
  qed
qed

lemma parse_nodeOk: "\<exists>c. nodeOk c (parse (tokenize up expr))"
proof -
  have "tokensOk (tokens (newParser (tokenize up expr)))"
    by (simp add: newParser_def tokenize_def scan_tokensOk)
  from parse_ok(1) [OF this] show ?thesis
    by (auto simp: parsesOk_def parse_def)
qed

subsection \<open>Nodes found by identifier\<close>

lemma extractSubExpressions_subset:
  "set (extractSubExpressions node acc) \<subseteq> set acc \<union> set (allNodes node)"
  by (induction node arbitrary: acc) (auto simp: addSubExpression_def split: if_splits)

lemma idsBelow_allNodes: "idsBelow c node \<Longrightarrow> n \<in> set (allNodes node) \<Longrightarrow> nodeId n < c"
  by (induction node) auto

lemma root_id_unique:
  assumes "rootTop root" "n \<in> set (allNodes root)" "nodeId n = nodeId root"
  shows "n = root"
  using assms by (cases root) (auto dest: idsBelow_allNodes)

lemma findNode_root:
  assumes "rootTop root"
    and "findNode (Some (nodeId root)) (extractSubExpressions root []) = Some n"
  shows "n = root"
proof -
  from assms(2) have "n \<in> set (extractSubExpressions root [])" "nodeId n = nodeId root"
    by (auto simp: findNode_def find_Some_iff)
  with extractSubExpressions_subset [of root "[]"] assms(1) show ?thesis
    by (auto intro: root_id_unique)
qed

subsection \<open>The variables a value depends on\<close>

lemma evaluateAST_cong:
  assumes "\<forall>v \<in> varValues node. v \<noteq> js ''1'' \<longrightarrow> v \<noteq> js ''0'' \<longrightarrow> lookup c1 v = lookup c2 v"
  shows "evaluateAST node c1 = evaluateAST node c2"
  using assms by (induction node) (auto simp: lookup_def Let_def split: Connective.splits)

lemma wfShape_var_length: "wfShape node \<Longrightarrow> v \<in> varValues node \<Longrightarrow> length v = 1"
  by (induction node) auto

lemma wfShape_nonvar_expression:
  "wfShape node \<Longrightarrow> n \<in> set (allNodes node) \<Longrightarrow> nodeType n \<noteq> N_VAR \<Longrightarrow>
   2 \<le> length (expression n)"
  by (induction node) auto

lemma wfShape_short_root:
  "wfShape root \<Longrightarrow> length (expression root) = 1 \<Longrightarrow>
   \<exists>i d. root = VarNode i (expression root) (expression root) d"
  by (cases root) auto

subsection \<open>The values of a row\<close>

lemma fold_assign_lookup:
  "fold (\<lambda>c ctx. ctx(colExpression c := f (colExpression c))) cs m k
     = (if k \<in> colExpression ` set cs then f k else m k)"
  by (induction cs arbitrary: m) auto

lemma inputContext_lookup:
  "inputContext cols rv k
     = (if k \<in> colExpression ` {c \<in> set cols. isInput c} then obj_get rv k else None)"
  using fold_assign_lookup [of "obj_get rv" "filter isInput cols" Map.empty k]
  by (simp add: inputContext_def)

lemma finalColumns_inputs:
  "colExpression ` {c \<in> set (finalColumns root vs settings). isInput c} = set vs"
proof -
  have "{c \<in> set (finalColumns root vs settings). isInput c}
          = set (filter isInput (finalColumns root vs settings))" by simp
  also have "\<dots> = set (varColumns vs)" by (simp only: filter_isInput_finalColumns)
  finally show ?thesis by (simp add: varColumns_def image_comp comp_def)
qed

lemma evaluateColumn_other_key:
  "colExpression col \<noteq> k \<Longrightarrow> obj_get (evaluateColumn root subs ctx col rv) k = obj_get rv k"
  by (auto simp: evaluateColumn_def obj_get_set split: option.splits)

lemma fold_other_keys:
  "\<forall>c \<in> set cols. colExpression c \<noteq> k \<Longrightarrow>
   obj_get (fold (evaluateColumn root subs ctx) cols rv) k = obj_get rv k"
  by (induction cols arbitrary: rv) (auto simp: evaluateColumn_other_key)

lemma fold_varColumns:
  "set ws \<subseteq> dom ctx \<Longrightarrow>
   obj_get (fold (evaluateColumn root subs ctx) (varColumns ws) rv) k
     = (if k \<in> set ws then ctx k else obj_get rv k)"
proof (induction ws arbitrary: rv)
  case Nil
  then show ?case by (simp add: varColumns_def)
next
  case (Cons w ws)
  from Cons.prems obtain b where b: "ctx w = Some b" by auto
  let ?col = "\<lparr>colId = VarColumn w, colLabel = w, colExpression = w, isInput = True,
                isOutput = False, astId = None, dependencyIds = None\<rparr>"
  have step: "evaluateColumn root subs ctx ?col rv = obj_set rv w b"
    using b by (simp add: evaluateColumn_def)
  have "obj_get (fold (evaluateColumn root subs ctx) (varColumns ws) (obj_set rv w b)) k
          = (if k \<in> set ws then ctx k else obj_get (obj_set rv w b) k)"
    using Cons.prems by (intro Cons.IH) auto
  then show ?case using step b by (auto simp: varColumns_def obj_get_set)
qed

text \<open>
  After all columns of a row, a declared variable that occurs in the tree still has the value
  the context gives it.
\<close>

lemma declared_variable_value:
  assumes wf: "wfShape root" and top: "rootTop root"
    and v: "v \<in> varValues root" "v \<noteq> js ''1''" "v \<noteq> js ''0''" "v \<in> set vs"
    and ctx: "dom ctx = set vs"
  shows "lookup (obj_get (fold (evaluateColumn root (extractSubExpressions root []) ctx)
                            (finalColumns root vs settings) [])) v = lookup ctx v"
proof -
  let ?subs = "extractSubExpressions root []"
  let ?f = "evaluateColumn root ?subs ctx"
  have len: "length v = 1" using wf v(1) by (rule wfShape_var_length)
  define mid where "mid = (if showSubExpressions settings then stepColumns root ?subs settings else [])"
  have cols: "finalColumns root vs settings = varColumns vs @ mid @ [resultColumn root settings]"
    by (simp add: finalColumns_def mid_def)
  define rv1 where "rv1 = fold ?f (varColumns vs) []"
  define rv2 where "rv2 = fold ?f mid rv1"
  have 1: "obj_get rv1 v = ctx v"
    unfolding rv1_def using ctx v(4) by (subst fold_varColumns) auto
  have "\<forall>c \<in> set mid. colExpression c \<noteq> v"
  proof
    fix c
    assume "c \<in> set mid"
    then obtain n where n: "n \<in> set ?subs" "nodeType n \<noteq> N_VAR" "colExpression c = expression n"
      by (auto simp: mid_def stepColumns_def split: if_splits)
    from n(1) extractSubExpressions_subset [of root "[]"] have "n \<in> set (allNodes root)" by auto
    from wfShape_nonvar_expression [OF wf this n(2)] len n(3)
    show "colExpression c \<noteq> v" by auto
  qed
  then have 2: "obj_get rv2 v = ctx v"
    unfolding rv2_def using 1 by (simp add: fold_other_keys)
  have final: "fold ?f (finalColumns root vs settings) [] = ?f (resultColumn root settings) rv2"
    by (simp add: cols rv1_def rv2_def)
  show ?thesis
  proof (cases "expression root = v")
    case False
    then have "obj_get (?f (resultColumn root settings) rv2) v = obj_get rv2 v"
      by (intro evaluateColumn_other_key) (simp add: resultColumn_def)
    with 2 final show ?thesis by (simp add: lookup_def)
  next
    case True
    with len wfShape_short_root [OF wf] obtain i d where root: "root = VarNode i v v d" by auto
    from ctx v(4) obtain b where b: "ctx v = Some b" by auto
    have "findNode (Some (nodeId root)) ?subs = Some n \<Longrightarrow>
            evaluateAST n ctx = evaluateAST root ctx" for n
      using findNode_root [OF top] by auto
    from evaluateColumn_result [of root ?subs ctx, OF this]
    have "obj_get (?f (resultColumn root settings) rv2) (expression root)
            = Some (evaluateAST root ctx)" .
    moreover have "evaluateAST root ctx = b"
      using root v(2,3) b by simp
    ultimately show ?thesis using final True b by (simp add: lookup_def)
  qed
qed

text \<open>
  C2.  For a result of \<open>analyzeLogic\<close> and each of its rows, the value stored under the
  root's expression string is the value of \<open>evaluateAST\<close> on the root and the context read
  from the row's values under the expressions of the input columns.
\<close>

theorem row_output_is_evaluation:
  assumes "analyzeLogic up expr vs settings = Inr res" and "row \<in> set (rows res)"
  shows "obj_get (vals row) (expression (ast res))
           = Some (evaluateAST (ast res) (inputContext (columns res) (vals row)))"
proof -
  let ?root = "parse (tokenize up expr)"
  from assms(1) have "undeclaredVariables up expr vs = []" by (rule analyzeLogic_cases(1))
  from analyzeLogic_result [OF this, of settings] assms(1)
  have ast: "ast res = ?root"
    and cols: "columns res = finalColumns ?root vs settings"
    and rows: "rows res = map (buildRow ?root vs settings) [0..<2 ^ length vs]"
    by auto
  from parse_nodeOk [of up expr] have wf: "wfShape ?root" and top: "rootTop ?root"
    by (auto simp: nodeOk_def)
  from assms(2) rows obtain i where row: "row = buildRow ?root vs settings i" by auto
  define ctx where "ctx = rowContext vs (if rowOrder settings = descending
                                          then 2 ^ length vs - 1 - i else i)"
  have dom: "dom ctx = set vs" by (simp add: ctx_def dom_rowContext)
  have vals: "vals row = fold (evaluateColumn ?root (extractSubExpressions ?root []) ctx)
                           (finalColumns ?root vs settings) []"
    by (simp add: row buildRow_def Let_def ctx_def)
  have "findNode (Some (nodeId ?root)) (extractSubExpressions ?root []) = Some n \<Longrightarrow>
          evaluateAST n ctx = evaluateAST ?root ctx" for n
    using findNode_root [OF top] by auto
  from row_root_value [of ?root ctx vs settings, OF this]
  have stored: "obj_get (vals row) (expression ?root) = Some (evaluateAST ?root ctx)"
    by (simp add: vals)
  have "lookup ctx v = lookup (inputContext (columns res) (vals row)) v"
    if v: "v \<in> varValues ?root" "v \<noteq> js ''1''" "v \<noteq> js ''0''" for v
  proof (cases "v \<in> set vs")
    case True
    from declared_variable_value [OF wf top v True dom, of settings]
    have "lookup (obj_get (vals row)) v = lookup ctx v" by (simp add: vals)
    moreover have "inputContext (columns res) (vals row) v = obj_get (vals row) v"
      using True by (simp add: inputContext_lookup cols finalColumns_inputs)
    ultimately show ?thesis by (simp add: lookup_def)
  next
    case False
    then have "inputContext (columns res) (vals row) v = None"
      by (simp add: inputContext_lookup cols finalColumns_inputs)
    moreover from False dom have "ctx v = None" by auto
    ultimately show ?thesis by (simp add: lookup_def)
  qed
  then have "evaluateAST ?root ctx = evaluateAST ?root (inputContext (columns res) (vals row))"
    by (intro evaluateAST_cong) auto
  with stored ast show ?thesis by simp
qed

text \<open>
  C2, an instance: the row of \<open>P&Q\<close> in which \<open>P\<close> and \<open>Q\<close> are true.
\<close>

theorem row_output_is_evaluation_witness:
  "\<exists>res. analyzeLogic toUpperCaseASCII (js ''P&Q'') [js ''P'', js ''Q''] DEFAULT_SETTINGS = Inr res
     \<and> exampleRow \<in> set (rows res)
     \<and> obj_get (vals exampleRow) (expression (ast res)) = Some True
     \<and> evaluateAST (ast res) (inputContext (columns res) (vals exampleRow)) = True"
proof -
  let ?vs = "[js ''P'', js ''Q'']"
  have "offending toUpperCaseASCII (js ''P&Q'') ?vs = {}"
    unfolding offending_def pq_tokens by (auto simp: js_def)
  then have "undeclaredVariables toUpperCaseASCII (js ''P&Q'') ?vs = []"
    using undeclaredVariables_props(1) [of toUpperCaseASCII "js ''P&Q''" ?vs] by simp
  from analyzeLogic_result [OF this, of DEFAULT_SETTINGS]
  obtain res where res: "analyzeLogic toUpperCaseASCII (js ''P&Q'') ?vs DEFAULT_SETTINGS = Inr res"
    and ast: "ast res = parse (tokenize toUpperCaseASCII (js ''P&Q''))"
    and rows: "rows res = map (buildRow (parse (tokenize toUpperCaseASCII (js ''P&Q''))) ?vs
                                DEFAULT_SETTINGS) [0..<2 ^ length ?vs]"
    by blast
  have mem: "exampleRow \<in> set (rows res)"
    unfolding rows pq_parse using pq_rows by (simp add: js_def exampleRow_def char_defs)
  have stored: "obj_get (vals exampleRow) (expression (ast res)) = Some True"
    unfolding ast pq_parse by (simp add: exampleRow_def obj_get_def js_def char_defs)
  from row_output_is_evaluation [OF res mem] stored
  have "evaluateAST (ast res) (inputContext (columns res) (vals exampleRow)) = True" by simp
  with res mem stored show ?thesis by blast
qed

section \<open>Properties of the call stack\<close>

subsection \<open>Frames of the parser\<close>

lemma nestingTokens_drop: "nestingTokens (drop k ts) \<le> nestingTokens ts"
proof -
  have "nestingTokens ts = nestingTokens (take k ts) + nestingTokens (drop k ts)"
    unfolding nestingTokens_def by (subst append_take_drop_id [of k ts, symmetric], subst filter_append) simp
  then show ?thesis by simp
qed

lemma nestingFrom_advances: "advances p p' \<Longrightarrow> nestingFrom p' \<le> nestingFrom p"
proof -
  assume a: "advances p p'"
  then have "drop (pos p') (tokens p') = drop (pos p' - pos p) (drop (pos p) (tokens p))"
    by (simp add: advances_def)
  then show ?thesis by (simp add: nestingFrom_def nestingTokens_drop del: drop_drop)
qed

lemma nestingFrom_consume:
  assumes "deepens (peek p)"
  shows "nestingFrom (snd (consume p)) + 1 = nestingFrom p"
proof -
  from assms have "ttype (peek p) \<noteq> T_EOF" by (auto simp: deepens_def)
  then have r: "pos p < length (tokens p)" by (rule peek_in_range)
  then have "drop (pos p) (tokens p) = peek p # drop (Suc (pos p)) (tokens p)"
    by (simp add: peek_def Cons_nth_drop_Suc)
  then show ?thesis using assms
    by (simp add: nestingFrom_def nestingTokens_def consume_def)
qed

lemma chain_enough:
  assumes "rs = Inr sub"
    and "\<And>l p1. sub = (l, p1) \<Longrightarrow> loops l p1 = Inr (loop l p1)"
  shows "(case rs of Inl e \<Rightarrow> Inl e | Inr (l, p1) \<Rightarrow> loops l p1)
           = Inr (case sub of (l, p1) \<Rightarrow> loop l p1)"
  using assms by (cases sub) simp

lemma loop_enough:
  assumes "rs = Inr sub"
    and "\<And>r p2 l' p3. sub = (r, p2) \<Longrightarrow> mk r p2 = (l', p3) \<Longrightarrow> loops l' p3 = Inr (loop l' p3)"
  shows "(case rs of Inl e \<Rightarrow> Inl e
          | Inr (r, p2) \<Rightarrow> (case mk r p2 of (l', p3) \<Rightarrow> loops l' p3))
         = Inr (case sub of (r, p2) \<Rightarrow> (case mk r p2 of (l', p3) \<Rightarrow> loop l' p3))"
proof -
  obtain r p2 where s: "sub = (r, p2)" by (cases sub)
  obtain l' p3 where m: "mk r p2 = (l', p3)" by (cases "mk r p2")
  from assms(2) [OF s m] show ?thesis using assms(1) s m by simp
qed

lemma parse_stack_enough:
  "7 * nestingFrom p + 7 \<le> d \<longrightarrow> parseIFF_stack d p = Inr (parseIFF p)"
  "7 * nestingFrom p + 6 \<le> d \<longrightarrow> parseIFF_loop_stack d l p = Inr (parseIFF_loop l p)"
  "7 * nestingFrom p + 6 \<le> d \<longrightarrow> parseImplies_stack d p = Inr (parseImplies p)"
  "7 * nestingFrom p + 5 \<le> d \<longrightarrow> parseImplies_loop_stack d l p = Inr (parseImplies_loop l p)"
  "7 * nestingFrom p + 5 \<le> d \<longrightarrow> parseXor_stack d p = Inr (parseXor p)"
  "7 * nestingFrom p + 4 \<le> d \<longrightarrow> parseXor_loop_stack d l p = Inr (parseXor_loop l p)"
  "7 * nestingFrom p + 4 \<le> d \<longrightarrow> parseOr_stack d p = Inr (parseOr p)"
  "7 * nestingFrom p + 3 \<le> d \<longrightarrow> parseOr_loop_stack d l p = Inr (parseOr_loop l p)"
  "7 * nestingFrom p + 3 \<le> d \<longrightarrow> parseAnd_stack d p = Inr (parseAnd p)"
  "7 * nestingFrom p + 2 \<le> d \<longrightarrow> parseAnd_loop_stack d l p = Inr (parseAnd_loop l p)"
  "7 * nestingFrom p + 2 \<le> d \<longrightarrow> parseNot_stack d p = Inr (parseNot p)"
  "7 * nestingFrom p + 1 \<le> d \<longrightarrow> parseFactor_stack d p = Inr (parseFactor p)"
proof (induct d p and d l p and d p and d l p and d p and d l p and d p and d l p
    and d p and d l p and d p and d p
    rule: parseIFF_stack_parseIFF_loop_stack_parseImplies_stack_parseImplies_loop_stack_parseXor_stack_parseXor_loop_stack_parseOr_stack_parseOr_loop_stack_parseAnd_stack_parseAnd_loop_stack_parseNot_stack_parseFactor_stack.induct)
  case (1 d p)
  show ?case
  proof
    assume bound: "7 * nestingFrom p + 7 \<le> d"
    then have d: "d \<noteq> 0" by simp
    have a: "parseImplies_stack (d - 1) p = Inr (parseImplies p)"
      using 1(1) [OF d] bound by simp
    have b: "parseIFF_loop_stack (d - 1) l p1 = Inr (parseIFF_loop l p1)"
      if "parseImplies p = (l, p1)" for l p1
    proof -
      have "advances p p1" using parse_advances [of p] that by simp
      then have "nestingFrom p1 \<le> nestingFrom p" by (rule nestingFrom_advances)
      with 1(2) [OF d a that [symmetric]] bound show ?thesis by simp
    qed
    show "parseIFF_stack d p = Inr (parseIFF p)"
      unfolding parseIFF_stack.simps [of d p] parseIFF.simps [of p]
      using d chain_enough [OF a b] by simp
  qed
next
  case (2 d l p)
  show ?case
  proof
    assume bound: "7 * nestingFrom p + 6 \<le> d"
    show "parseIFF_loop_stack d l p = Inr (parseIFF_loop l p)"
    proof (cases "ttype (peek p) = T_IFF")
      case False
      then show ?thesis
        by (simp add: parseIFF_loop_stack.simps [of d l p] parseIFF_loop.simps [of l p])
    next
      case True
      have c: "nestingFrom (snd (consume p)) \<le> nestingFrom p"
        using advances_consume by (rule nestingFrom_advances)
      have a: "parseImplies_stack d (snd (consume p)) = Inr (parseImplies (snd (consume p)))"
        using 2(1) [OF True] bound c by simp
      have b: "parseIFF_loop_stack d l' p3 = Inr (parseIFF_loop l' p3)"
        if "parseImplies (snd (consume p)) = (r, p2)" "mkBinary C_IFF [c_iff] l r p2 = (l', p3)"
        for r p2 l' p3
      proof -
        have "advances (snd (consume p)) p2"
          using parse_advances [of "snd (consume p)"] that(1) by simp
        moreover have "advances p2 p3"
          using advances_mkBinary [of p2 C_IFF "[c_iff]" l r] that(2) by simp
        ultimately have "nestingFrom p3 \<le> nestingFrom (snd (consume p))"
          by (blast intro: nestingFrom_advances advances_trans)
        with 2(2) [OF True a that(1) [symmetric] that(2) [symmetric]] bound c
        show ?thesis by simp
      qed
      show ?thesis
        unfolding parseIFF_loop_stack.simps [of d l p] parseIFF_loop.simps [of l p]
        using True loop_enough [where mk = "mkBinary C_IFF [c_iff] l"
            and loops = "parseIFF_loop_stack d" and loop = parseIFF_loop, OF a b]
        by simp
    qed
  qed
next
  case (3 d p)
  show ?case
  proof
    assume bound: "7 * nestingFrom p + 6 \<le> d"
    then have d: "d \<noteq> 0" by simp
    have a: "parseXor_stack (d - 1) p = Inr (parseXor p)"
      using 3(1) [OF d] bound by simp
    have b: "parseImplies_loop_stack (d - 1) l p1 = Inr (parseImplies_loop l p1)"
      if "parseXor p = (l, p1)" for l p1
    proof -
      have "advances p p1" using parse_advances [of p] that by simp
      then have "nestingFrom p1 \<le> nestingFrom p" by (rule nestingFrom_advances)
      with 3(2) [OF d a that [symmetric]] bound show ?thesis by simp
    qed
    show "parseImplies_stack d p = Inr (parseImplies p)"
      unfolding parseImplies_stack.simps [of d p] parseImplies.simps [of p]
      using d chain_enough [OF a b] by simp
  qed
next
  case (4 d l p)
  show ?case
  proof
    assume bound: "7 * nestingFrom p + 5 \<le> d"
    show "parseImplies_loop_stack d l p = Inr (parseImplies_loop l p)"
    proof (cases "ttype (peek p) = T_IMPLIES")
      case False
      then show ?thesis
        by (simp add: parseImplies_loop_stack.simps [of d l p] parseImplies_loop.simps [of l p])
    next
      case True
      have c: "nestingFrom (snd (consume p)) \<le> nestingFrom p"
        using advances_consume by (rule nestingFrom_advances)
      have a: "parseXor_stack d (snd (consume p)) = Inr (parseXor (snd (consume p)))"
        using 4(1) [OF True] bound c by simp
      have b: "parseImplies_loop_stack d l' p3 = Inr (parseImplies_loop l' p3)"
        if "parseXor (snd (consume p)) = (r, p2)" "mkBinary C_IMPLIES [c_implies] l r p2 = (l', p3)"
        for r p2 l' p3
      proof -
        have "advances (snd (consume p)) p2"
          using parse_advances [of "snd (consume p)"] that(1) by simp
        moreover have "advances p2 p3"
          using advances_mkBinary [of p2 C_IMPLIES "[c_implies]" l r] that(2) by simp
        ultimately have "nestingFrom p3 \<le> nestingFrom (snd (consume p))"
          by (blast intro: nestingFrom_advances advances_trans)
        with 4(2) [OF True a that(1) [symmetric] that(2) [symmetric]] bound c
        show ?thesis by simp
      qed
      show ?thesis
        unfolding parseImplies_loop_stack.simps [of d l p] parseImplies_loop.simps [of l p]
        using True loop_enough [where mk = "mkBinary C_IMPLIES [c_implies] l"
            and loops = "parseImplies_loop_stack d" and loop = parseImplies_loop, OF a b]
        by simp
    qed
  qed
next
  case (5 d p)
  show ?case
  proof
    assume bound: "7 * nestingFrom p + 5 \<le> d"
    then have d: "d \<noteq> 0" by simp
    have a: "parseOr_stack (d - 1) p = Inr (parseOr p)"
      using 5(1) [OF d] bound by simp
    have b: "parseXor_loop_stack (d - 1) l p1 = Inr (parseXor_loop l p1)"
      if "parseOr p = (l, p1)" for l p1
    proof -
      have "advances p p1" using parse_advances [of p] that by simp
      then have "nestingFrom p1 \<le> nestingFrom p" by (rule nestingFrom_advances)
      with 5(2) [OF d a that [symmetric]] bound show ?thesis by simp
    qed
    show "parseXor_stack d p = Inr (parseXor p)"
      unfolding parseXor_stack.simps [of d p] parseXor.simps [of p]
      using d chain_enough [OF a b] by simp
  qed
next
  case (6 d l p)
  show ?case
  proof
    assume bound: "7 * nestingFrom p + 4 \<le> d"
    show "parseXor_loop_stack d l p = Inr (parseXor_loop l p)"
    proof (cases "ttype (peek p) = T_XOR")
      case False
      then show ?thesis
        by (simp add: parseXor_loop_stack.simps [of d l p] parseXor_loop.simps [of l p])
    next
      case True
      have c: "nestingFrom (snd (consume p)) \<le> nestingFrom p"
        using advances_consume by (rule nestingFrom_advances)
      have a: "parseOr_stack d (snd (consume p)) = Inr (parseOr (snd (consume p)))"
        using 6(1) [OF True] bound c by simp
      have b: "parseXor_loop_stack d l' p3 = Inr (parseXor_loop l' p3)"
        if "parseOr (snd (consume p)) = (r, p2)" "mkBinary C_XOR [c_xor] l r p2 = (l', p3)"
        for r p2 l' p3
      proof -
        have "advances (snd (consume p)) p2"
          using parse_advances [of "snd (consume p)"] that(1) by simp
        moreover have "advances p2 p3"
          using advances_mkBinary [of p2 C_XOR "[c_xor]" l r] that(2) by simp
        ultimately have "nestingFrom p3 \<le> nestingFrom (snd (consume p))"
          by (blast intro: nestingFrom_advances advances_trans)
        with 6(2) [OF True a that(1) [symmetric] that(2) [symmetric]] bound c
        show ?thesis by simp
      qed
      show ?thesis
        unfolding parseXor_loop_stack.simps [of d l p] parseXor_loop.simps [of l p]
        using True loop_enough [where mk = "mkBinary C_XOR [c_xor] l"
            and loops = "parseXor_loop_stack d" and loop = parseXor_loop, OF a b]
        by simp
    qed
  qed
next
  case (7 d p)
  show ?case
  proof
    assume bound: "7 * nestingFrom p + 4 \<le> d"
    then have d: "d \<noteq> 0" by simp
    have a: "parseAnd_stack (d - 1) p = Inr (parseAnd p)"
      using 7(1) [OF d] bound by simp
    have b: "parseOr_loop_stack (d - 1) l p1 = Inr (parseOr_loop l p1)"
      if "parseAnd p = (l, p1)" for l p1
    proof -
      have "advances p p1" using parse_advances [of p] that by simp
      then have "nestingFrom p1 \<le> nestingFrom p" by (rule nestingFrom_advances)
      with 7(2) [OF d a that [symmetric]] bound show ?thesis by simp
    qed
    show "parseOr_stack d p = Inr (parseOr p)"
      unfolding parseOr_stack.simps [of d p] parseOr.simps [of p]
      using d chain_enough [OF a b] by simp
  qed
next
  case (8 d l p)
  show ?case
  proof
    assume bound: "7 * nestingFrom p + 3 \<le> d"
    show "parseOr_loop_stack d l p = Inr (parseOr_loop l p)"
    proof (cases "ttype (peek p) = T_OR")
      case False
      then show ?thesis
        by (simp add: parseOr_loop_stack.simps [of d l p] parseOr_loop.simps [of l p])
    next
      case True
      have c: "nestingFrom (snd (consume p)) \<le> nestingFrom p"
        using advances_consume by (rule nestingFrom_advances)
      have a: "parseAnd_stack d (snd (consume p)) = Inr (parseAnd (snd (consume p)))"
        using 8(1) [OF True] bound c by simp
      have b: "parseOr_loop_stack d l' p3 = Inr (parseOr_loop l' p3)"
        if "parseAnd (snd (consume p)) = (r, p2)" "mkBinary C_OR [c_or] l r p2 = (l', p3)"
        for r p2 l' p3
      proof -
        have "advances (snd (consume p)) p2"
          using parse_advances [of "snd (consume p)"] that(1) by simp
        moreover have "advances p2 p3"
          using advances_mkBinary [of p2 C_OR "[c_or]" l r] that(2) by simp
        ultimately have "nestingFrom p3 \<le> nestingFrom (snd (consume p))"
          by (blast intro: nestingFrom_advances advances_trans)
        with 8(2) [OF True a that(1) [symmetric] that(2) [symmetric]] bound c
        show ?thesis by simp
      qed
      show ?thesis
        unfolding parseOr_loop_stack.simps [of d l p] parseOr_loop.simps [of l p]
        using True loop_enough [where mk = "mkBinary C_OR [c_or] l"
            and loops = "parseOr_loop_stack d" and loop = parseOr_loop, OF a b]
        by simp
    qed
  qed
next
  case (9 d p)
  show ?case
  proof
    assume bound: "7 * nestingFrom p + 3 \<le> d"
    then have d: "d \<noteq> 0" by simp
    have a: "parseNot_stack (d - 1) p = Inr (parseNot p)"
      using 9(1) [OF d] bound by simp
    have b: "parseAnd_loop_stack (d - 1) l p1 = Inr (parseAnd_loop l p1)"
      if "parseNot p = (l, p1)" for l p1
    proof -
      have "advances p p1" using parse_advances [of p] that by simp
      then have "nestingFrom p1 \<le> nestingFrom p" by (rule nestingFrom_advances)
      with 9(2) [OF d a that [symmetric]] bound show ?thesis by simp
    qed
    show "parseAnd_stack d p = Inr (parseAnd p)"
      unfolding parseAnd_stack.simps [of d p] parseAnd.simps [of p]
      using d chain_enough [OF a b] by simp
  qed
next
  case (10 d l p)
  show ?case
  proof
    assume bound: "7 * nestingFrom p + 2 \<le> d"
    show "parseAnd_loop_stack d l p = Inr (parseAnd_loop l p)"
    proof (cases "ttype (peek p) = T_AND")
      case False
      then show ?thesis
        by (simp add: parseAnd_loop_stack.simps [of d l p] parseAnd_loop.simps [of l p])
    next
      case True
      have c: "nestingFrom (snd (consume p)) \<le> nestingFrom p"
        using advances_consume by (rule nestingFrom_advances)
      have a: "parseNot_stack d (snd (consume p)) = Inr (parseNot (snd (consume p)))"
        using 10(1) [OF True] bound c by simp
      have b: "parseAnd_loop_stack d l' p3 = Inr (parseAnd_loop l' p3)"
        if "parseNot (snd (consume p)) = (r, p2)" "mkBinary C_AND [c_and] l r p2 = (l', p3)"
        for r p2 l' p3
      proof -
        have "advances (snd (consume p)) p2"
          using parse_advances [of "snd (consume p)"] that(1) by simp
        moreover have "advances p2 p3"
          using advances_mkBinary [of p2 C_AND "[c_and]" l r] that(2) by simp
        ultimately have "nestingFrom p3 \<le> nestingFrom (snd (consume p))"
          by (blast intro: nestingFrom_advances advances_trans)
        with 10(2) [OF True a that(1) [symmetric] that(2) [symmetric]] bound c
        show ?thesis by simp
      qed
      show ?thesis
        unfolding parseAnd_loop_stack.simps [of d l p] parseAnd_loop.simps [of l p]
        using True loop_enough [where mk = "mkBinary C_AND [c_and] l"
            and loops = "parseAnd_loop_stack d" and loop = parseAnd_loop, OF a b]
        by simp
    qed
  qed
next
  case (11 d p)
  show ?case
  proof
    assume bound: "7 * nestingFrom p + 2 \<le> d"
    then have d: "d \<noteq> 0" by simp
    show "parseNot_stack d p = Inr (parseNot p)"
    proof (cases "ttype (peek p) = T_NOT")
      case True
      obtain token p1 where c: "consume p = (token, p1)" by (cases "consume p")
      have "deepens (peek p)" using True by (simp add: deepens_def)
      from nestingFrom_consume [OF this] c have "nestingFrom p1 + 1 = nestingFrom p" by simp
      with 11(1) [OF d True c [symmetric]] bound
      have "parseNot_stack (d - 1) p1 = Inr (parseNot p1)" by simp
      then show ?thesis using d True c
        by (simp add: parseNot_stack.simps [of d p] parseNot.simps [of p] split: prod.splits)
    next
      case False
      with 11(2) [OF d False] bound
      have "parseFactor_stack (d - 1) p = Inr (parseFactor p)" by simp
      then show ?thesis using d False
        by (simp add: parseNot_stack.simps [of d p] parseNot.simps [of p])
    qed
  qed
next
  case (12 d p)
  show ?case
  proof
    assume bound: "7 * nestingFrom p + 1 \<le> d"
    then have d: "d \<noteq> 0" by simp
    show "parseFactor_stack d p = Inr (parseFactor p)"
    proof (cases "ttype (peek p) \<in> {T_LPAREN, T_LBRACKET, T_LBRACE}")
      case True
      then have "deepens (peek p)" by (auto simp: deepens_def)
      from nestingFrom_consume [OF this]
      have "nestingFrom (snd (consume p)) + 1 = nestingFrom p" .
      with 12(1) [OF d refl True refl refl] bound
      have "parseIFF_stack (d - 1) (snd (consume p)) = Inr (parseIFF (snd (consume p)))"
        by simp
      then show ?thesis using d True
        by (auto simp: parseFactor_stack.simps [of d p] parseFactor.simps [of p] Let_def
            split: prod.splits)
    next
      case False
      then show ?thesis using d
        by (auto simp: parseFactor_stack.simps [of d p] parseFactor.simps [of p] Let_def
            split: prod.splits)
    qed
  qed
qed

subsection \<open>Height of the parsed tree\<close>

lemma operatorTokens_drop: "operatorTokens (drop k ts) \<le> operatorTokens ts"
proof -
  have "operatorTokens ts = operatorTokens (take k ts) + operatorTokens (drop k ts)"
    unfolding operatorTokens_def
    by (subst append_take_drop_id [of k ts, symmetric], subst filter_append) simp
  then show ?thesis by simp
qed

lemma operatorsFrom_advances: "advances p p' \<Longrightarrow> operatorsFrom p' \<le> operatorsFrom p"
proof -
  assume a: "advances p p'"
  then have "drop (pos p') (tokens p') = drop (pos p' - pos p) (drop (pos p) (tokens p))"
    by (simp add: advances_def)
  then show ?thesis by (simp add: operatorsFrom_def operatorTokens_drop del: drop_drop)
qed

lemma operatorsFrom_consume:
  assumes "isOperator (peek p)"
  shows "operatorsFrom (snd (consume p)) + 1 = operatorsFrom p"
proof -
  from assms have "ttype (peek p) \<noteq> T_EOF" by (auto simp: isOperator_def)
  then have r: "pos p < length (tokens p)" by (rule peek_in_range)
  then have "drop (pos p) (tokens p) = peek p # drop (Suc (pos p)) (tokens p)"
    by (simp add: peek_def Cons_nth_drop_Suc)
  then show ?thesis using assms
    by (simp add: operatorsFrom_def operatorTokens_def consume_def)
qed

lemma operatorsFrom_generateId [simp]: "operatorsFrom (snd (generateId p)) = operatorsFrom p"
  by (simp add: operatorsFrom_def generateId_def)

lemma operatorsFrom_counter [simp]: "operatorsFrom (p\<lparr>nodeIdCounter := c\<rparr>) = operatorsFrom p"
  by (simp add: operatorsFrom_def)

lemma operatorsFrom_mkBinary [simp]:
  "operatorsFrom (snd (mkBinary c s l r p)) = operatorsFrom p"
  by (simp add: operatorsFrom_def mkBinary_def generateId_def)

lemma height_mkBinary [simp]:
  "height (fst (mkBinary c s l r p)) = max (height l) (height r) + 1"
  by (simp add: mkBinary_def generateId_def)

lemma height_setExpression [simp]: "height (setExpression node e) = height node"
  by (cases node) auto

lemma height_pos: "0 < height node"
  by (cases node) auto

lemma chain_height:
  assumes "height (fst sub) + operatorsFrom (snd sub) \<le> operatorsFrom p + 1"
    and "\<And>l p1. (l, p1) = sub \<Longrightarrow>
           height (fst (loop l p1)) + operatorsFrom (snd (loop l p1)) \<le> height l + operatorsFrom p1"
  shows "height (fst (case sub of (l, p1) \<Rightarrow> loop l p1))
           + operatorsFrom (snd (case sub of (l, p1) \<Rightarrow> loop l p1)) \<le> operatorsFrom p + 1"
proof -
  obtain l p1 where s: "sub = (l, p1)" by (cases sub)
  from assms(2) [of l p1] assms(1) s show ?thesis by simp
qed

lemma loop_height:
  assumes "isOperator (peek p)"
    and "height (fst sub) + operatorsFrom (snd sub) \<le> operatorsFrom (snd (consume p)) + 1"
    and "\<And>r p2 l' p3. (r, p2) = sub \<Longrightarrow> (l', p3) = mkBinary c s l r p2 \<Longrightarrow>
           height (fst (loop l' p3)) + operatorsFrom (snd (loop l' p3))
             \<le> height l' + operatorsFrom p3"
  shows "height (fst (case sub of (r, p2) \<Rightarrow>
                        (case mkBinary c s l r p2 of (l', p3) \<Rightarrow> loop l' p3)))
           + operatorsFrom (snd (case sub of (r, p2) \<Rightarrow>
                        (case mkBinary c s l r p2 of (l', p3) \<Rightarrow> loop l' p3)))
         \<le> height l + operatorsFrom p"
proof -
  obtain r p2 where s: "sub = (r, p2)" by (cases sub)
  obtain l' p3 where m: "mkBinary c s l r p2 = (l', p3)" by (cases "mkBinary c s l r p2")
  have l': "height l' = max (height l) (height r) + 1"
    using height_mkBinary [of c s l r p2] m by simp
  have p3: "operatorsFrom p3 = operatorsFrom p2"
    using operatorsFrom_mkBinary [of c s l r p2] m by simp
  have c: "operatorsFrom (snd (consume p)) + 1 = operatorsFrom p"
    using assms(1) by (rule operatorsFrom_consume)
  have r: "height r + operatorsFrom p2 \<le> operatorsFrom (snd (consume p)) + 1"
    using assms(2) s by simp
  have "height (fst (loop l' p3)) + operatorsFrom (snd (loop l' p3))
          \<le> height l' + operatorsFrom p3"
    using assms(3) [of r p2 l' p3] s m by simp
  also have "\<dots> \<le> height l + operatorsFrom p"
    using l' p3 c r height_pos [of l] height_pos [of r] by (simp add: max_def split: if_splits)
  finally show ?thesis using s m by simp
qed

lemma parse_height:
  "height (fst (parseIFF p)) + operatorsFrom (snd (parseIFF p)) \<le> operatorsFrom p + 1"
  "height (fst (parseIFF_loop l p)) + operatorsFrom (snd (parseIFF_loop l p))
     \<le> height l + operatorsFrom p"
  "height (fst (parseImplies p)) + operatorsFrom (snd (parseImplies p)) \<le> operatorsFrom p + 1"
  "height (fst (parseImplies_loop l p)) + operatorsFrom (snd (parseImplies_loop l p))
     \<le> height l + operatorsFrom p"
  "height (fst (parseXor p)) + operatorsFrom (snd (parseXor p)) \<le> operatorsFrom p + 1"
  "height (fst (parseXor_loop l p)) + operatorsFrom (snd (parseXor_loop l p))
     \<le> height l + operatorsFrom p"
  "height (fst (parseOr p)) + operatorsFrom (snd (parseOr p)) \<le> operatorsFrom p + 1"
  "height (fst (parseOr_loop l p)) + operatorsFrom (snd (parseOr_loop l p))
     \<le> height l + operatorsFrom p"
  "height (fst (parseAnd p)) + operatorsFrom (snd (parseAnd p)) \<le> operatorsFrom p + 1"
  "height (fst (parseAnd_loop l p)) + operatorsFrom (snd (parseAnd_loop l p))
     \<le> height l + operatorsFrom p"
  "height (fst (parseNot p)) + operatorsFrom (snd (parseNot p)) \<le> operatorsFrom p + 1"
  "height (fst (parseFactor p)) + operatorsFrom (snd (parseFactor p)) \<le> operatorsFrom p + 1"
proof (induct p and l p and p and l p and p and l p and p and l p and p and l p and p and p
    rule: parseIFF_parseIFF_loop_parseImplies_parseImplies_loop_parseXor_parseXor_loop_parseOr_parseOr_loop_parseAnd_parseAnd_loop_parseNot_parseFactor.induct)
  case (1 p)
  show ?case
    unfolding parseIFF.simps [of p]
    using 1(1) 1(2) by (rule chain_height)
next
  case (2 l p)
  show ?case
  proof (cases "ttype (peek p) = T_IFF")
    case False
    then show ?thesis by (simp add: parseIFF_loop.simps [of l p])
  next
    case True
    then have op: "isOperator (peek p)" by (simp add: isOperator_def)
    have eq: "parseIFF_loop l p =
        (case parseImplies (snd (consume p)) of (r, p2) \<Rightarrow>
           (case mkBinary C_IFF [c_iff] l r p2 of (l', p3) \<Rightarrow> parseIFF_loop l' p3))"
      using True by (simp add: parseIFF_loop.simps [of l p])
    show ?thesis
      unfolding eq by (rule loop_height [OF op 2(1) [OF True] 2(2) [OF True]])
  qed
next
  case (3 p)
  show ?case
    unfolding parseImplies.simps [of p]
    using 3(1) 3(2) by (rule chain_height)
next
  case (4 l p)
  show ?case
  proof (cases "ttype (peek p) = T_IMPLIES")
    case False
    then show ?thesis by (simp add: parseImplies_loop.simps [of l p])
  next
    case True
    then have op: "isOperator (peek p)" by (simp add: isOperator_def)
    have eq: "parseImplies_loop l p =
        (case parseXor (snd (consume p)) of (r, p2) \<Rightarrow>
           (case mkBinary C_IMPLIES [c_implies] l r p2 of (l', p3) \<Rightarrow> parseImplies_loop l' p3))"
      using True by (simp add: parseImplies_loop.simps [of l p])
    show ?thesis
      unfolding eq by (rule loop_height [OF op 4(1) [OF True] 4(2) [OF True]])
  qed
next
  case (5 p)
  show ?case
    unfolding parseXor.simps [of p]
    using 5(1) 5(2) by (rule chain_height)
next
  case (6 l p)
  show ?case
  proof (cases "ttype (peek p) = T_XOR")
    case False
    then show ?thesis by (simp add: parseXor_loop.simps [of l p])
  next
    case True
    then have op: "isOperator (peek p)" by (simp add: isOperator_def)
    have eq: "parseXor_loop l p =
        (case parseOr (snd (consume p)) of (r, p2) \<Rightarrow>
           (case mkBinary C_XOR [c_xor] l r p2 of (l', p3) \<Rightarrow> parseXor_loop l' p3))"
      using True by (simp add: parseXor_loop.simps [of l p])
    show ?thesis
      unfolding eq by (rule loop_height [OF op 6(1) [OF True] 6(2) [OF True]])
  qed
next
  case (7 p)
  show ?case
    unfolding parseOr.simps [of p]
    using 7(1) 7(2) by (rule chain_height)
next
  case (8 l p)
  show ?case
  proof (cases "ttype (peek p) = T_OR")
    case False
    then show ?thesis by (simp add: parseOr_loop.simps [of l p])
  next
    case True
    then have op: "isOperator (peek p)" by (simp add: isOperator_def)
    have eq: "parseOr_loop l p =
        (case parseAnd (snd (consume p)) of (r, p2) \<Rightarrow>
           (case mkBinary C_OR [c_or] l r p2 of (l', p3) \<Rightarrow> parseOr_loop l' p3))"
      using True by (simp add: parseOr_loop.simps [of l p])
    show ?thesis
      unfolding eq by (rule loop_height [OF op 8(1) [OF True] 8(2) [OF True]])
  qed
next
  case (9 p)
  show ?case
    unfolding parseAnd.simps [of p]
    using 9(1) 9(2) by (rule chain_height)
next
  case (10 l p)
  show ?case
  proof (cases "ttype (peek p) = T_AND")
    case False
    then show ?thesis by (simp add: parseAnd_loop.simps [of l p])
  next
    case True
    then have op: "isOperator (peek p)" by (simp add: isOperator_def)
    have eq: "parseAnd_loop l p =
        (case parseNot (snd (consume p)) of (r, p2) \<Rightarrow>
           (case mkBinary C_AND [c_and] l r p2 of (l', p3) \<Rightarrow> parseAnd_loop l' p3))"
      using True by (simp add: parseAnd_loop.simps [of l p])
    show ?thesis
      unfolding eq by (rule loop_height [OF op 10(1) [OF True] 10(2) [OF True]])
  qed
next
  case (11 p)
  show ?case
  proof (cases "ttype (peek p) = T_NOT")
    case True
    then have op: "isOperator (peek p)" by (simp add: isOperator_def)
    obtain token p1 where c: "consume p = (token, p1)" by (cases "consume p")
    from operatorsFrom_consume [OF op] c have "operatorsFrom p1 + 1 = operatorsFrom p" by simp
    with 11(1) [OF True c [symmetric]] show ?thesis using True c
      by (auto simp: parseNot.simps [of p] generateId_def split: prod.splits)
  next
    case False
    with 11(2) [OF False] show ?thesis by (simp add: parseNot.simps [of p])
  qed
next
  case (12 p)
  show ?case
  proof (cases "ttype (peek p) \<in> {T_LPAREN, T_LBRACKET, T_LBRACE}")
    case True
    obtain node p2 where r: "parseIFF (snd (consume p)) = (node, p2)"
      by (cases "parseIFF (snd (consume p))")
    have a: "height node + operatorsFrom p2 \<le> operatorsFrom (snd (consume p)) + 1"
      using 12 [OF refl True refl refl] r by simp
    have b: "operatorsFrom (snd (consume p)) \<le> operatorsFrom p"
      using advances_consume by (rule operatorsFrom_advances)
    have c: "operatorsFrom (snd (consume p2)) \<le> operatorsFrom p2"
      using advances_consume by (rule operatorsFrom_advances)
    show ?thesis using True r a b c
      by (simp add: parseFactor.simps [of p] Let_def)
  next
    case False
    have "operatorsFrom (snd (consume p)) \<le> operatorsFrom p"
      using advances_consume by (rule operatorsFrom_advances)
    then show ?thesis using False
      by (auto simp: parseFactor.simps [of p] Let_def generateId_def split: prod.splits)
  qed
qed

subsection \<open>Frames of the analysis\<close>

lemma evaluateAST_stack_eq:
  "evaluateAST_stack stack node ctx =
     (if stack < height node then Inl RangeError else Inr (evaluateAST node ctx))"
  by (induction node arbitrary: stack) (auto simp: Let_def)

lemma extractSubExpressions_stack_eq:
  "extractSubExpressions_stack stack node list =
     (if stack < height node then Inl RangeError else Inr (extractSubExpressions node list))"
  by (induction node arbitrary: stack list) auto

lemma calculateComplexity_stack_eq:
  "calculateComplexity_stack stack node =
     (if stack < height node then Inl RangeError else Inr (calculateComplexity node))"
  by (induction node arbitrary: stack) (auto split: prod.splits)

lemma height_allNodes: "n \<in> set (allNodes node) \<Longrightarrow> height n \<le> height node"
  by (induction node) auto

lemma foldE_pure:
  "(\<And>x st. x \<in> set xs \<Longrightarrow> f x st = Inr (g x st)) \<Longrightarrow> foldE f xs st = Inr (fold g xs st)"
  by (induction xs arbitrary: st) auto

lemma fold_snoc_map: "fold (\<lambda>i rs. rs @ [h i]) xs acc = acc @ map h xs"
  by (induction xs arbitrary: acc) auto

lemma evaluateColumn_stack_eq:
  assumes "height root \<le> stack"
  shows "evaluateColumn_stack stack root (extractSubExpressions root []) ctx col rowValues
         = Inr (evaluateColumn root (extractSubExpressions root []) ctx col rowValues)"
proof -
  have "height node \<le> stack"
    if "findNode (astId col) (extractSubExpressions root []) = Some node" for node
  proof -
    from that have "node \<in> set (extractSubExpressions root [])"
      by (auto simp: findNode_def find_Some_iff)
    with extractSubExpressions_subset [of root "[]"] have "node \<in> set (allNodes root)" by auto
    from height_allNodes [OF this] assms show ?thesis by simp
  qed
  then show ?thesis using assms
    by (auto simp: evaluateColumn_stack_def evaluateColumn_def evaluateAST_stack_eq
        split: option.splits)
qed

lemma buildRow_stack_eq:
  assumes "height root \<le> stack"
  shows "buildRow_stack stack root (extractSubExpressions root [])
           (finalColumns root vs settings) vs settings i
         = Inr (buildRow root vs settings i)"
  using foldE_pure [of "finalColumns root vs settings"
      "evaluateColumn_stack stack root (extractSubExpressions root []) ctx"
      "evaluateColumn root (extractSubExpressions root []) ctx" "[]" for ctx]
    evaluateColumn_stack_eq [OF assms]
  by (simp add: buildRow_stack_def buildRow_def Let_def)

text \<open>What the analysis does with a given budget of frames.\<close>

lemma parse_stack_agrees: "agrees (parse_stack stack ts) (parse ts)"
  using parse_methods_agree(1) [of "stack - 1" "newParser ts"]
  by (auto simp: parse_stack_def parse_def agrees_def split: prod.splits)

lemma rows_stack_eq:
  assumes "height root \<le> stack"
  shows "foldE (\<lambda>i rs. case buildRow_stack stack root (extractSubExpressions root [])
                             (finalColumns root vs settings) vs settings i of
                          Inl e \<Rightarrow> Inl e
                        | Inr row \<Rightarrow> Inr (rs @ [row])) is []
         = Inr (map (buildRow root vs settings) is)"
  using foldE_pure [of "is" _ "\<lambda>i rs. rs @ [buildRow root vs settings i]" "[]"]
  by (simp add: buildRow_stack_eq [OF assms] fold_snoc_map)

lemma analyzeLogic_stack_eq:
  "analyzeLogic_stack stack up expr vs settings =
     (case parse_stack stack (tokenize up expr) of
        Inl e \<Rightarrow> Inl e
      | Inr root \<Rightarrow>
          if undeclaredVariables up expr vs \<noteq> []
          then Inl (Error (undeclaredMessage (undeclaredVariables up expr vs)))
          else if stack < height root then Inl RangeError
          else analyzeLogic up expr vs settings)"
proof (cases "parse_stack stack (tokenize up expr)")
  case (Inl e)
  then show ?thesis by (simp add: analyzeLogic_stack_def)
next
  case (Inr root)
  with parse_stack_agrees [of stack "tokenize up expr"]
  have root: "parse (tokenize up expr) = root" by simp
  show ?thesis
  proof (cases "undeclaredVariables up expr vs \<noteq> []")
    case True
    then show ?thesis using Inr
      by (simp add: analyzeLogic_stack_def undeclaredVariables_def Let_def)
  next
    case False
    show ?thesis
    proof (cases "stack < height root")
      case True
      then show ?thesis using Inr False
        by (simp add: analyzeLogic_stack_def undeclaredVariables_def Let_def
            extractSubExpressions_stack_eq)
    next
      case enough: False
      then have h: "height root \<le> stack" by simp
      have cols: "(if showSubExpressions settings
                   then varColumns vs @ stepColumns root (extractSubExpressions root []) settings
                          @ [resultColumn root settings]
                   else varColumns vs @ [resultColumn root settings])
                  = finalColumns root vs settings"
        by (simp add: finalColumns_def)
      show ?thesis using Inr False enough
        unfolding analyzeLogic_stack_def analyzeLogic_def root Let_def
        by (simp add: undeclaredVariables_def extractSubExpressions_stack_eq cols
            rows_stack_eq [OF h] calculateComplexity_stack_eq
            split: sum.splits prod.splits)
          (simp add: finalColumns_def)
    qed
  qed
qed

subsection \<open>Exhausting the stack\<close>

lemma overflow_IFF:
  "parseImplies_stack (d - 1) p = Inl RangeError \<Longrightarrow> parseIFF_stack d p = Inl RangeError"
  by (simp add: parseIFF_stack.simps [of d p])

lemma overflow_Implies:
  "parseXor_stack (d - 1) p = Inl RangeError \<Longrightarrow> parseImplies_stack d p = Inl RangeError"
  by (simp add: parseImplies_stack.simps [of d p])

lemma overflow_Xor:
  "parseOr_stack (d - 1) p = Inl RangeError \<Longrightarrow> parseXor_stack d p = Inl RangeError"
  by (simp add: parseXor_stack.simps [of d p])

lemma overflow_Or:
  "parseAnd_stack (d - 1) p = Inl RangeError \<Longrightarrow> parseOr_stack d p = Inl RangeError"
  by (simp add: parseOr_stack.simps [of d p])

lemma overflow_And:
  "parseNot_stack (d - 1) p = Inl RangeError \<Longrightarrow> parseAnd_stack d p = Inl RangeError"
  by (simp add: parseAnd_stack.simps [of d p])

lemma overflow_Not:
  "ttype (peek p) \<noteq> T_NOT \<Longrightarrow> parseFactor_stack (d - 1) p = Inl RangeError \<Longrightarrow>
   parseNot_stack d p = Inl RangeError"
  by (simp add: parseNot_stack.simps [of d p])

lemma overflow_Factor:
  "ttype (peek p) \<in> {T_LPAREN, T_LBRACKET, T_LBRACE} \<Longrightarrow>
   parseIFF_stack (d - 1) (snd (consume p)) = Inl RangeError \<Longrightarrow>
   parseFactor_stack d p = Inl RangeError"
  by (simp add: parseFactor_stack.simps [of d p] Let_def)

text \<open>Seven frames are needed for any expression: the chain of methods down to an atom.\<close>

lemma parseNot_stack_shallow: "d < 2 \<Longrightarrow> parseNot_stack d p = Inl RangeError"
proof -
  assume "d < 2"
  then consider "d = 0" | "d = 1" by linarith
  then show ?thesis
  proof cases
    case 1
    then show ?thesis by (simp add: parseNot_stack.simps [of 0 p])
  next
    case 2
    have "parseNot_stack 0 q = Inl RangeError" for q
      by (simp add: parseNot_stack.simps [of 0 q])
    moreover have "parseFactor_stack 0 p = Inl RangeError"
      by (simp add: parseFactor_stack.simps [of 0 p])
    ultimately show ?thesis using 2
      by (simp add: parseNot_stack.simps [of "Suc 0" p] split: prod.splits)
  qed
qed

lemma overflow_chain:
  assumes "parseNot_stack (d - 5) p = Inl RangeError"
  shows "parseIFF_stack d p = Inl RangeError"
proof -
  have e: "d - 4 - 1 = d - 5" "d - 3 - 1 = d - 4" "d - 2 - 1 = d - 3" "d - 1 - 1 = d - 2"
    by simp_all
  from assms have "parseAnd_stack (d - 4) p = Inl RangeError"
    by (intro overflow_And) (simp only: e)
  then have "parseOr_stack (d - 3) p = Inl RangeError"
    by (intro overflow_Or) (simp only: e)
  then have "parseXor_stack (d - 2) p = Inl RangeError"
    by (intro overflow_Xor) (simp only: e)
  then have "parseImplies_stack (d - 1) p = Inl RangeError"
    by (intro overflow_Implies) (simp only: e)
  then show ?thesis by (rule overflow_IFF)
qed

lemma parseIFF_stack_shallow:
  assumes "d < 7"
  shows "parseIFF_stack d p = Inl RangeError"
proof -
  have "parseNot_stack (d - 5) p = Inl RangeError"
    using assms by (intro parseNot_stack_shallow) simp
  then show ?thesis by (rule overflow_chain)
qed

text \<open>An open bracket costs seven frames: the chain of methods down to the group.\<close>

lemma parseIFF_stack_bracket:
  assumes "ttype (peek p) = T_LPAREN"
    and "parseIFF_stack (d - 7) (snd (consume p)) = Inl RangeError"
  shows "parseIFF_stack d p = Inl RangeError"
proof -
  have e: "d - 6 - 1 = d - 7" "d - 5 - 1 = d - 6" by simp_all
  have "parseFactor_stack (d - 6) p = Inl RangeError"
    using assms(1) by (intro overflow_Factor) (simp_all only: e assms(2), simp)
  then have "parseNot_stack (d - 5) p = Inl RangeError"
    using assms(1) by (intro overflow_Not) (simp_all only: e, simp)
  then show ?thesis by (rule overflow_chain)
qed

lemma nested_brackets_overflow:
  "d < 7 * (n + 1) \<Longrightarrow>
   (\<forall>i < n. pos p + i < length (tokens p) \<and> ttype (tokens p ! (pos p + i)) = T_LPAREN) \<Longrightarrow>
   parseIFF_stack d p = Inl RangeError"
proof (induction n arbitrary: d p)
  case 0
  then show ?case by (simp add: parseIFF_stack_shallow)
next
  case (Suc n)
  from Suc.prems(2) have first: "pos p < length (tokens p)" "ttype (tokens p ! pos p) = T_LPAREN"
    by (auto dest: spec [of _ 0])
  then have pk: "ttype (peek p) = T_LPAREN" by (simp add: peek_def)
  have "\<forall>i < n. pos (snd (consume p)) + i < length (tokens (snd (consume p)))
          \<and> ttype (tokens (snd (consume p)) ! (pos (snd (consume p)) + i)) = T_LPAREN"
  proof (intro allI impI)
    fix i
    assume "i < n"
    then have "Suc i < Suc n" by simp
    with Suc.prems(2) have "pos p + Suc i < length (tokens p)
        \<and> ttype (tokens p ! (pos p + Suc i)) = T_LPAREN" by blast
    then show "pos (snd (consume p)) + i < length (tokens (snd (consume p)))
          \<and> ttype (tokens (snd (consume p)) ! (pos (snd (consume p)) + i)) = T_LPAREN"
      by (simp add: consume_def)
  qed
  moreover have "d - 7 < 7 * (n + 1)" using Suc.prems(1) by simp
  ultimately have "parseIFF_stack (d - 7) (snd (consume p)) = Inl RangeError"
    by (intro Suc.IH)
  with pk show ?case by (rule parseIFF_stack_bracket)
qed

lemma parse_stack_nested:
  assumes "stack \<le> 7 * (n + 1)"
  shows "parse_stack stack (replicate n \<lparr>ttype = T_LPAREN, tvalue = js ''(''\<rparr> @ ts) = Inl RangeError"
proof (cases "stack = 0")
  case True
  then show ?thesis by (simp add: parse_stack_def)
next
  case False
  let ?p = "newParser (replicate n \<lparr>ttype = T_LPAREN, tvalue = js ''(''\<rparr> @ ts)"
  have "parseIFF_stack (stack - 1) ?p = Inl RangeError"
  proof (rule nested_brackets_overflow [where n = n])
    show "stack - 1 < 7 * (n + 1)" using assms False by simp
    show "\<forall>i < n. pos ?p + i < length (tokens ?p) \<and> ttype (tokens ?p ! (pos ?p + i)) = T_LPAREN"
      by (simp add: newParser_def nth_append)
  qed
  then show ?thesis using False by (simp add: parse_stack_def)
qed

subsection \<open>Tokens of nested brackets\<close>

lemma scan_open_brackets:
  "scan (replicate n 40 @ rest) = replicate n \<lparr>ttype = T_LPAREN, tvalue = js ''(''\<rparr> @ scan rest"
proof (induction n)
  case 0
  show ?case by simp
next
  case (Suc n)
  have "matchOperator (40 # xs) = None" for xs
    by (simp add: matchOperator_def opKeys_eq startsWith_def js_def)
  then show ?case using Suc
    by (simp add: isSymbolChar_def SYMBOLS_def typeOfSymbolChar_def js_def char_defs)
qed

lemma scan_close_brackets:
  "scan (replicate n 41) = replicate n \<lparr>ttype = T_RPAREN, tvalue = js '')''\<rparr>
     @ [\<lparr>ttype = T_EOF, tvalue = []\<rparr>]"
proof (induction n)
  case 0
  show ?case by simp
next
  case (Suc n)
  have "matchOperator (41 # xs) = None" for xs
    by (simp add: matchOperator_def opKeys_eq startsWith_def js_def)
  then show ?case using Suc
    by (simp add: isSymbolChar_def SYMBOLS_def typeOfSymbolChar_def js_def char_defs)
qed


lemma scan_zero: "scan (48 # rest) = \<lparr>ttype = T_VAR, tvalue = js ''0''\<rparr> # scan rest"
proof -
  have "matchOperator (48 # rest) = None"
    by (simp add: matchOperator_def opKeys_eq startsWith_def js_def)
  then show ?thesis
    by (simp add: isSymbolChar_def SYMBOLS_def isVarChar_def js_def char_defs)
qed

lemma deeplyNested_tokens:
  "tokenize toUpperCaseASCII deeplyNested =
     replicate 1500 \<lparr>ttype = T_LPAREN, tvalue = js ''(''\<rparr>
       @ (\<lparr>ttype = T_VAR, tvalue = js ''0''\<rparr>
            # replicate 1500 \<lparr>ttype = T_RPAREN, tvalue = js '')''\<rparr>
            @ [\<lparr>ttype = T_EOF, tvalue = []\<rparr>])"
proof -
  let ?s = "replicate 1500 40 @ 48 # replicate 1500 41"
  have d: "deeplyNested = ?s"
    by (simp add: deeplyNested_def js_def)
  have u: "toUpperCaseASCII ?s = ?s"
    by (simp add: toUpperCaseASCII_def)
  have f: "filter (\<lambda>c. \<not> isWhiteSpace c) ?s = ?s"
    by (simp add: isWhiteSpace_def)
  show ?thesis
    unfolding tokenize_def d u f
    by (simp only: scan_open_brackets scan_zero scan_close_brackets)
qed

subsection \<open>The parser on every input\<close>

lemma parse_stack_cases:
  "parse_stack stack ts = Inl RangeError \<or> parse_stack stack ts = Inr (parse ts)"
  using parse_stack_agrees [of stack ts] by (simp add: agrees_def)

lemma parse_stack_enough_frames:
  assumes "7 * nestingTokens ts + 8 \<le> stack"
  shows "parse_stack stack ts = Inr (parse ts)"
proof -
  have "nestingFrom (newParser ts) = nestingTokens ts"
    by (simp add: nestingFrom_def newParser_def)
  with assms have "parseIFF_stack (stack - 1) (newParser ts) = Inr (parseIFF (newParser ts))"
    by (intro parse_stack_enough(1) [rule_format]) simp
  then show ?thesis using assms
    by (simp add: parse_stack_def parse_def split: prod.splits)
qed

text \<open>
  C5, amended.  On every input string the tokenizer and the parser terminate (every call
  is in the domain of the recursion), and the parser returns a tree unless it exhausts the
  call stack, which raises \<open>RangeError\<close>; nothing else is raised.  It returns the tree
  whenever the stack has eight frames and seven more for every open bracket and every
  negation among the tokens.  A character that starts no operator key and is no symbol,
  bracket, letter, \<open>0\<close>, \<open>1\<close> or \<open>-\<close> produces no token.  A group whose close bracket is
  missing or of another kind returns the inner tree and leaves the parser where the inner
  parse stopped.  A token that is neither an open bracket nor a variable where an atom is
  expected is consumed and replaced by the variable node \<open>?\<close>.
\<close>

theorem parse_lenient:
  "scan_dom (filter (\<lambda>c. \<not> isWhiteSpace c) (up input))
   \<and> parse_stack_dom (Inl (Inl (Inl (stack - 1, newParser (tokenize up input)))))
   \<and> (parse_stack stack (tokenize up input) = Inl RangeError
        \<or> parse_stack stack (tokenize up input) = Inr (parse (tokenize up input)))
   \<and> (7 * nestingTokens (tokenize up input) + 8 \<le> stack
        \<longrightarrow> parse_stack stack (tokenize up input) = Inr (parse (tokenize up input)))
   \<and> (\<forall>c rest. matchOperator (c # rest) = None \<and> \<not> isSymbolChar [c] \<and> \<not> isVarChar c \<and> c \<noteq> 45
         \<longrightarrow> scan (c # rest) = scan rest)
   \<and> (\<forall>d p node p2.
         d \<noteq> 0 \<and> ttype (peek p) \<in> {T_LPAREN, T_LBRACKET, T_LBRACE}
         \<and> parseIFF_stack (d - 1) (snd (consume p)) = Inr (node, p2)
         \<and> ttype (peek p2) \<noteq> (if ttype (peek p) = T_LPAREN then T_RPAREN
                                else if ttype (peek p) = T_LBRACKET then T_RBRACKET
                                else T_RBRACE)
         \<longrightarrow> parseFactor_stack d p = Inr (node, p2))
   \<and> (\<forall>d p. d \<noteq> 0 \<and> ttype (peek p) \<notin> {T_LPAREN, T_LBRACKET, T_LBRACE, T_VAR}
         \<longrightarrow> parseFactor_stack d p =
               Inr (VarNode (nodeIdCounter p) (js ''?'') (js ''?'') 0,
                    p\<lparr>pos := pos p + 1, nodeIdCounter := nodeIdCounter p + 1\<rparr>))"
proof (intro conjI allI impI)
  show "scan_dom (filter (\<lambda>c. \<not> isWhiteSpace c) (up input))"
    by (rule scan_terminates)
  show "parse_stack_dom (Inl (Inl (Inl (stack - 1, newParser (tokenize up input)))))"
    by (rule parse_stack_terminates)
  show "parse_stack stack (tokenize up input) = Inl RangeError
        \<or> parse_stack stack (tokenize up input) = Inr (parse (tokenize up input))"
    by (rule parse_stack_cases)
next
  assume "7 * nestingTokens (tokenize up input) + 8 \<le> stack"
  then show "parse_stack stack (tokenize up input) = Inr (parse (tokenize up input))"
    by (rule parse_stack_enough_frames)
next
  fix c rest
  assume "matchOperator (c # rest) = None \<and> \<not> isSymbolChar [c] \<and> \<not> isVarChar c \<and> c \<noteq> 45"
  then show "scan (c # rest) = scan rest" by simp
next
  fix d p node p2
  assume "d \<noteq> 0 \<and> ttype (peek p) \<in> {T_LPAREN, T_LBRACKET, T_LBRACE}
         \<and> parseIFF_stack (d - 1) (snd (consume p)) = Inr (node, p2)
         \<and> ttype (peek p2) \<noteq> (if ttype (peek p) = T_LPAREN then T_RPAREN
                                else if ttype (peek p) = T_LBRACKET then T_RBRACKET
                                else T_RBRACE)"
  then show "parseFactor_stack d p = Inr (node, p2)"
    by (subst parseFactor_stack.simps) (auto simp: Let_def)
next
  fix d :: nat and p
  assume "d \<noteq> 0 \<and> ttype (peek p) \<notin> {T_LPAREN, T_LBRACKET, T_LBRACE, T_VAR}"
  then show "parseFactor_stack d p =
               Inr (VarNode (nodeIdCounter p) (js ''?'') (js ''?'') 0,
                    p\<lparr>pos := pos p + 1, nodeIdCounter := nodeIdCounter p + 1\<rparr>)"
    by (subst parseFactor_stack.simps) (auto simp: Let_def consume_def generateId_def)
qed

text \<open>
  C5, instances, on a stack of 100 frames: the character \<open>#\<close>, the group \<open>[a)\<close> closed by
  the wrong bracket, and the operator \<open>&\<close> in the place of an atom.
\<close>

theorem parse_lenient_witness:
  "7 * nestingTokens (tokenize toUpperCaseASCII (js ''[a)'')) + 8 \<le> 100
   \<and> parse_stack 100 (tokenize toUpperCaseASCII (js ''[a)''))
       = Inr (VarNode 0 (js ''A'') (js ''A'') 0)
   \<and> matchOperator (js ''#A'') = None \<and> \<not> isSymbolChar (js ''#'') \<and> \<not> isVarChar 35
   \<and> scan (js ''#A'') = scan (js ''A'')
   \<and> ttype (peek (newParser (tokenize toUpperCaseASCII (js ''[a)'')))) = T_LBRACKET
   \<and> parseIFF_stack (50 - 1) (snd (consume (newParser (tokenize toUpperCaseASCII (js ''[a)'')))))
       = Inr (VarNode 0 (js ''A'') (js ''A'') 0,
              \<lparr>tokens = tokenize toUpperCaseASCII (js ''[a)''), pos = 2, nodeIdCounter = 1\<rparr>)
   \<and> ttype (peek \<lparr>tokens = tokenize toUpperCaseASCII (js ''[a)''), pos = 2, nodeIdCounter = 1\<rparr>)
       = T_RPAREN
   \<and> parseFactor_stack 50 (newParser (tokenize toUpperCaseASCII (js ''[a)''))) =
       Inr (VarNode 0 (js ''A'') (js ''A'') 0,
            \<lparr>tokens = tokenize toUpperCaseASCII (js ''[a)''), pos = 2, nodeIdCounter = 1\<rparr>)
   \<and> ttype (peek (newParser (tokenize toUpperCaseASCII (js ''&'')))) = T_AND
   \<and> parseFactor_stack 50 (newParser (tokenize toUpperCaseASCII (js ''&''))) =
       Inr (VarNode 0 (js ''?'') (js ''?'') 0,
            \<lparr>tokens = tokenize toUpperCaseASCII (js ''&''), pos = 1, nodeIdCounter = 1\<rparr>)"
proof -
  let ?T = "tokenize toUpperCaseASCII (js ''[a)'')"
  let ?U = "tokenize toUpperCaseASCII (js ''&'')"
  have T: "?T = [\<lparr>ttype = T_LBRACKET, tvalue = [91]\<rparr>, \<lparr>ttype = T_VAR, tvalue = [65]\<rparr>,
                 \<lparr>ttype = T_RPAREN, tvalue = [41]\<rparr>, \<lparr>ttype = T_EOF, tvalue = []\<rparr>]"
    by (simp add: token_eval)
  have U: "?U = [\<lparr>ttype = T_AND, tvalue = [8743]\<rparr>, \<lparr>ttype = T_EOF, tvalue = []\<rparr>]"
    by (simp add: token_eval)
  have n: "7 * nestingTokens ?T + 8 \<le> 100"
    unfolding T by (simp add: nestingTokens_def deepens_def)
  have root: "parse ?T = VarNode 0 (js ''A'') (js ''A'') 0"
    unfolding T by (simp add: parse_eval js_def)
  have a1: "matchOperator (js ''#A'') = None \<and> \<not> isSymbolChar (js ''#'') \<and> \<not> isVarChar 35"
    by (simp add: token_eval)
  have inner: "parseIFF (snd (consume (newParser ?T))) =
      (VarNode 0 (js ''A'') (js ''A'') 0, \<lparr>tokens = ?T, pos = 2, nodeIdCounter = 1\<rparr>)"
    unfolding T by (simp add: parse_eval js_def)
  have "7 * nestingFrom (snd (consume (newParser ?T))) + 7 \<le> 50 - 1"
    unfolding T by (simp add: nestingFrom_def nestingTokens_def deepens_def parse_eval)
  then have inner_stack: "parseIFF_stack (50 - 1) (snd (consume (newParser ?T))) =
      Inr (VarNode 0 (js ''A'') (js ''A'') 0, \<lparr>tokens = ?T, pos = 2, nodeIdCounter = 1\<rparr>)"
    using parse_stack_enough(1) [of "snd (consume (newParser ?T))" "50 - 1"] inner by simp
  have b1: "ttype (peek (newParser ?T)) = T_LBRACKET"
    unfolding T by (simp add: parse_eval)
  have b2: "ttype (peek \<lparr>tokens = ?T, pos = 2, nodeIdCounter = 1\<rparr>) = T_RPAREN"
    unfolding T by (simp add: parse_eval)
  have c1: "ttype (peek (newParser ?U)) = T_AND"
    unfolding U by (simp add: parse_eval)
  note th = parse_lenient [of toUpperCaseASCII "js ''[a)''" 100]
  from th n root have "parse_stack 100 ?T = Inr (VarNode 0 (js ''A'') (js ''A'') 0)"
    by simp
  moreover from th have "scan (js ''#A'') = scan (js ''A'')"
    using a1 by (simp add: js_def)
  moreover from th have "parseFactor_stack 50 (newParser ?T) =
      Inr (VarNode 0 (js ''A'') (js ''A'') 0, \<lparr>tokens = ?T, pos = 2, nodeIdCounter = 1\<rparr>)"
    using inner_stack b1 b2 by simp
  moreover from th have "parseFactor_stack 50 (newParser ?U) =
      Inr (VarNode 0 (js ''?'') (js ''?'') 0, \<lparr>tokens = ?U, pos = 1, nodeIdCounter = 1\<rparr>)"
    using c1 by (simp add: newParser_def)
  ultimately show ?thesis using n a1 b1 b2 c1 inner_stack by simp
qed

lemma deeplyNested_overflow:
  "parse_stack 10000 (tokenize toUpperCaseASCII deeplyNested) = Inl RangeError"
  unfolding deeplyNested_tokens by (rule parse_stack_nested) simp

text \<open>
  C5 as stated fails: on a call stack of 10000 frames the parser raises \<open>RangeError\<close> on the
  constant \<open>0\<close> inside 1500 pairs of round brackets.
\<close>

theorem deep_nesting_raises:
  "parse_stack 10000 (tokenize toUpperCaseASCII deeplyNested) = Inl RangeError"
  by (rule deeplyNested_overflow)


subsection \<open>Errors of the analysis\<close>

lemma height_parse: "height (parse ts) \<le> operatorTokens ts + 1"
  using parse_height(1) [of "newParser ts"]
  by (simp add: parse_def operatorsFrom_def newParser_def)

lemma analyzeLogic_stack_cases:
  "analyzeLogic_stack stack up expr vs settings = Inl RangeError
   \<or> (undeclaredVariables up expr vs \<noteq> []
       \<and> analyzeLogic_stack stack up expr vs settings
           = Inl (Error (undeclaredMessage (undeclaredVariables up expr vs))))
   \<or> (undeclaredVariables up expr vs = []
       \<and> analyzeLogic_stack stack up expr vs settings = analyzeLogic up expr vs settings)"
  using parse_stack_cases [of stack "tokenize up expr"]
  by (auto simp: analyzeLogic_stack_eq split: if_splits)

lemma analyzeLogic_stack_enough:
  assumes "7 * nestingTokens (tokenize up expr) + 8 \<le> stack"
    and "operatorTokens (tokenize up expr) + 1 \<le> stack"
  shows "analyzeLogic_stack stack up expr vs settings = analyzeLogic up expr vs settings"
proof -
  have "parse_stack stack (tokenize up expr) = Inr (parse (tokenize up expr))"
    using assms(1) by (rule parse_stack_enough_frames)
  moreover have "\<not> stack < height (parse (tokenize up expr))"
    using height_parse [of "tokenize up expr"] assms(2) by simp
  ultimately show ?thesis
    using analyzeLogic_error [of up expr vs settings]
    by (simp add: analyzeLogic_stack_eq)
qed

text \<open>
  Every result of the analysis on a bounded stack is a result of the analysis without a
  bound, so what holds of every result of \<open>analyzeLogic\<close> holds on every stack.
\<close>

lemma analyzeLogic_stack_result:
  "analyzeLogic_stack stack up expr vs settings = Inr res \<Longrightarrow>
   analyzeLogic up expr vs settings = Inr res"
  using analyzeLogic_stack_cases [of stack up expr vs settings] by auto

lemma evaluateRawExpression_stack_enough:
  assumes "7 * nestingTokens (tokenize up expr) + 8 \<le> stack"
    and "operatorTokens (tokenize up expr) + 1 \<le> stack"
  shows "evaluateRawExpression_stack stack up expr ctx = evaluateRawExpression up expr ctx"
proof -
  have "parse_stack stack (tokenize up expr) = Inr (parse (tokenize up expr))"
    using assms(1) by (rule parse_stack_enough_frames)
  moreover have "\<not> stack < height (parse (tokenize up expr))"
    using height_parse [of "tokenize up expr"] assms(2) by simp
  ultimately show ?thesis
    by (simp add: evaluateRawExpression_stack_def evaluateRawExpression_def evaluateAST_stack_eq)
qed

text \<open>
  C6, amended.  \<open>analyzeLogic\<close> raises one of two errors: \<open>RangeError\<close>, when the call
  stack is exhausted, or the message \<open>Variable\<close>, with an \<open>s\<close> when there are several,
  followed by the offending symbols (the values of the \<open>VAR\<close> tokens other than \<open>0\<close> and
  \<open>1\<close> that are not declared), each once, sorted and separated by commas, and
  \<open>used but not declared.\<close>  An offending symbol always gives an error, and a result is
  returned only without one; it has \<open>2 ^ n\<close> rows, and an error carries no rows.  When
  the stack has eight frames and seven more for every open bracket and every negation among
  the tokens, and one frame more than there are operators, it is not exhausted: then an
  error is raised exactly when there is an offending symbol, and without one the result is
  returned.
\<close>

theorem undeclared_variable_error:
  "(\<forall>e. analyzeLogic_stack stack up expr vs settings = Inl e \<longrightarrow>
        e = RangeError
        \<or> (\<exists>names. set names = offending up expr vs \<and> names \<noteq> [] \<and> distinct names
              \<and> sorted names
              \<and> e = Error (js ''Variable'' @ (if length names > 1 then js ''s'' else [])
                            @ js '' '' @ join (js '', '') names @ js '' used but not declared.'')))
   \<and> (offending up expr vs \<noteq> {} \<longrightarrow>
        (\<exists>e. analyzeLogic_stack stack up expr vs settings = Inl e))
   \<and> (\<forall>res. analyzeLogic_stack stack up expr vs settings = Inr res \<longrightarrow>
        offending up expr vs = {} \<and> length (rows res) = 2 ^ length vs)
   \<and> (7 * nestingTokens (tokenize up expr) + 8 \<le> stack
        \<and> operatorTokens (tokenize up expr) + 1 \<le> stack \<longrightarrow>
        analyzeLogic_stack stack up expr vs settings \<noteq> Inl RangeError
        \<and> ((\<exists>e. analyzeLogic_stack stack up expr vs settings = Inl e)
             \<longleftrightarrow> offending up expr vs \<noteq> {})
        \<and> (offending up expr vs = {} \<longrightarrow>
             (\<exists>res. analyzeLogic_stack stack up expr vs settings = Inr res
                \<and> length (rows res) = 2 ^ length vs)))"
proof -
  let ?r = "analyzeLogic_stack stack up expr vs settings"
  let ?u = "undeclaredVariables up expr vs"
  note cases = analyzeLogic_stack_cases [of stack up expr vs settings]
  note off = undeclaredVariables_props [of up expr vs]
  have empty: "?u = [] \<longleftrightarrow> offending up expr vs = {}"
    using off(1) by (metis set_empty)
  have ok: "\<exists>res. analyzeLogic up expr vs settings = Inr res \<and> length (rows res) = 2 ^ length vs"
    if "?u = []"
    using analyzeLogic_result [OF that, of settings] by auto
  have A: "e = RangeError
        \<or> (\<exists>names. set names = offending up expr vs \<and> names \<noteq> [] \<and> distinct names
              \<and> sorted names
              \<and> e = Error (js ''Variable'' @ (if length names > 1 then js ''s'' else [])
                            @ js '' '' @ join (js '', '') names @ js '' used but not declared.''))"
    if e: "?r = Inl e" for e
  proof -
    from cases consider "?r = Inl RangeError"
      | "?u \<noteq> []" "?r = Inl (Error (undeclaredMessage ?u))"
      | "?u = []" "?r = analyzeLogic up expr vs settings" by blast
    then show ?thesis
    proof cases
      case 1
      with e show ?thesis by simp
    next
      case 2
      with e have "e = Error (undeclaredMessage ?u)" by simp
      then have "\<exists>names. set names = offending up expr vs \<and> names \<noteq> [] \<and> distinct names
              \<and> sorted names
              \<and> e = Error (js ''Variable'' @ (if length names > 1 then js ''s'' else [])
                            @ js '' '' @ join (js '', '') names @ js '' used but not declared.'')"
        using off 2(1) by (intro exI [of _ ?u]) (simp add: undeclaredMessage_def)
      then show ?thesis ..
    next
      case 3
      with e ok [OF 3(1)] show ?thesis by auto
    qed
  qed
  have B: "\<exists>e. ?r = Inl e" if "offending up expr vs \<noteq> {}"
    using that cases empty by auto
  have C: "offending up expr vs = {} \<and> length (rows res) = 2 ^ length vs" if "?r = Inr res" for res
  proof -
    from that cases have u: "?u = []" and r: "analyzeLogic up expr vs settings = Inr res"
      by auto
    from ok [OF u] r empty u show ?thesis by auto
  qed
  have D: "?r \<noteq> Inl RangeError
        \<and> ((\<exists>e. ?r = Inl e) \<longleftrightarrow> offending up expr vs \<noteq> {})
        \<and> (offending up expr vs = {} \<longrightarrow>
             (\<exists>res. ?r = Inr res \<and> length (rows res) = 2 ^ length vs))"
    if enough: "7 * nestingTokens (tokenize up expr) + 8 \<le> stack
        \<and> operatorTokens (tokenize up expr) + 1 \<le> stack"
  proof -
    from enough have r: "?r = analyzeLogic up expr vs settings"
      by (intro analyzeLogic_stack_enough) simp_all
    show ?thesis
    proof (cases "?u = []")
      case True
      with ok [OF True] r empty show ?thesis by auto
    next
      case False
      with analyzeLogic_error [OF False, of settings] r empty show ?thesis by auto
    qed
  qed
  from A B C D show ?thesis by blast
qed

text \<open>
  C6, instances on a stack of 100 frames: \<open>P&Q\<close> with only \<open>P\<close> declared, and with both
  declared.
\<close>

theorem undeclared_variable_error_witness:
  "offending toUpperCaseASCII (js ''P&Q'') [js ''P''] = {js ''Q''}
   \<and> 7 * nestingTokens (tokenize toUpperCaseASCII (js ''P&Q'')) + 8 \<le> 100
   \<and> operatorTokens (tokenize toUpperCaseASCII (js ''P&Q'')) + 1 \<le> 100
   \<and> analyzeLogic_stack 100 toUpperCaseASCII (js ''P&Q'') [js ''P''] DEFAULT_SETTINGS
       = Inl (Error (js ''Variable Q used but not declared.''))
   \<and> offending toUpperCaseASCII (js ''P&Q'') [js ''P'', js ''Q''] = {}
   \<and> (\<exists>res. analyzeLogic_stack 100 toUpperCaseASCII (js ''P&Q'') [js ''P'', js ''Q'']
                DEFAULT_SETTINGS = Inr res \<and> length (rows res) = 4)"
proof -
  have off1: "offending toUpperCaseASCII (js ''P&Q'') [js ''P''] = {js ''Q''}"
    unfolding offending_def pq_tokens
    by (auto simp: js_def intro!: exI [of _ "\<lparr>ttype = T_VAR, tvalue = [81]\<rparr>"])
  have off2: "offending toUpperCaseASCII (js ''P&Q'') [js ''P'', js ''Q''] = {}"
    unfolding offending_def pq_tokens by (auto simp: js_def)
  have enough: "7 * nestingTokens (tokenize toUpperCaseASCII (js ''P&Q'')) + 8 \<le> 100"
    "operatorTokens (tokenize toUpperCaseASCII (js ''P&Q'')) + 1 \<le> 100"
    unfolding pq_tokens
    by (simp_all add: nestingTokens_def deepens_def operatorTokens_def isOperator_def)
  note th1 = undeclared_variable_error
    [of 100 toUpperCaseASCII "js ''P&Q''" "[js ''P'']" DEFAULT_SETTINGS]
  note th2 = undeclared_variable_error
    [of 100 toUpperCaseASCII "js ''P&Q''" "[js ''P'', js ''Q'']" DEFAULT_SETTINGS]
  from th1 off1 obtain e
    where e: "analyzeLogic_stack 100 toUpperCaseASCII (js ''P&Q'') [js ''P''] DEFAULT_SETTINGS = Inl e"
    by auto
  from th1 enough e have "e \<noteq> RangeError" by auto
  with th1 off1 e obtain names where names: "set names = {js ''Q''}" "distinct names"
    and msg: "e = Error (js ''Variable'' @ (if length names > 1 then js ''s'' else [])
                          @ js '' '' @ join (js '', '') names @ js '' used but not declared.'')"
    by auto
  from names have "names = [js ''Q'']" by (rule singleton_list)
  with msg have "e = Error (js ''Variable Q used but not declared.'')"
    by (simp add: js_def)
  moreover from th2 off2 enough
  have "\<exists>res. analyzeLogic_stack 100 toUpperCaseASCII (js ''P&Q'') [js ''P'', js ''Q'']
                DEFAULT_SETTINGS = Inr res \<and> length (rows res) = 4"
    by simp
  ultimately show ?thesis using e off1 off2 enough by simp
qed

text \<open>
  C6 as stated fails: on a call stack of 10000 frames the analysis of the constant \<open>0\<close>
  inside 1500 pairs of round brackets raises an error, and no symbol of the expression is
  undeclared.
\<close>

theorem deep_nesting_error_nothing_undeclared:
  "offending toUpperCaseASCII deeplyNested [] = {}
   \<and> analyzeLogic_stack 10000 toUpperCaseASCII deeplyNested [] DEFAULT_SETTINGS
       = Inl RangeError"
proof
  show "offending toUpperCaseASCII deeplyNested [] = {}"
    unfolding offending_def deeplyNested_tokens by (auto simp: js_def)
  show "analyzeLogic_stack 10000 toUpperCaseASCII deeplyNested [] DEFAULT_SETTINGS
       = Inl RangeError"
    by (simp add: analyzeLogic_stack_def deeplyNested_overflow)
qed

end
